theory Spec2Isabelle
  imports Complex_Main "HOL-Library.Word"
begin

section \<open>Common machinery: unchecked vectors and counted loops\<close>

text \<open>
  The errors the code can end in. \<open>OutOfRange\<close> is the \<^verbatim>\<open>std::out_of_range\<close> thrown by
  the accessors of \<^verbatim>\<open>VertexInfo\<close>. \<open>UncheckedAccess\<close> stands for an access through
  \<^verbatim>\<open>std::vector::operator[]\<close> (or the dereference of an end iterator) outside the
  vector: C++ gives it no meaning and signals nothing, so the model stops there with a
  value of its own instead of inventing a result. \<open>LengthError\<close> is the exception of a
  vector constructed with a negative size. \<open>UndefinedDivision\<close> stands for a division
  the numeric type gives no result for (an integer divided by zero traps).
\<close>

datatype error = OutOfRange | UncheckedAccess | LengthError | UndefinedDivision

text \<open>\<^verbatim>\<open>v[i]\<close> read and written, for an \<^verbatim>\<open>int\<close> index.\<close>

definition vec_at :: "'a list \<Rightarrow> int \<Rightarrow> error + 'a" where
  "vec_at v i = (if 0 \<le> i \<and> i < int (length v) then Inr (v ! nat i) else Inl UncheckedAccess)"

definition vec_set :: "'a list \<Rightarrow> int \<Rightarrow> 'a \<Rightarrow> error + 'a list" where
  "vec_set v i x = (if 0 \<le> i \<and> i < int (length v) then Inr (v[nat i := x]) else Inl UncheckedAccess)"

text \<open>
  \<^verbatim>\<open>for (int i = a; i < n; ++i) body\<close>, for a bound \<open>n\<close> the body does not change
  (every counted loop of the two files is of this kind). The body maps the loop state
  to the next one, or fails, which ends the loop.
\<close>

function for_loop :: "int \<Rightarrow> int \<Rightarrow> (int \<Rightarrow> 's \<Rightarrow> error + 's) \<Rightarrow> 's \<Rightarrow> error + 's" where
  "for_loop i n body s =
     (if i < n then
        (case body i s of
           Inl e \<Rightarrow> Inl e
         | Inr s' \<Rightarrow> for_loop (i + 1) n body s')
      else Inr s)"
  by pat_completeness auto
termination
  by (relation "measure (\<lambda>(i, n, body, s). nat (n - i))") auto

declare for_loop.simps [simp del]

section \<open>Machine integers\<close>

text \<open>
  A signed C++ integer of \<open>LENGTH('a)\<close> bits in two's complement: \<^verbatim>\<open>int\<close> is
  \<open>32 cint\<close>, \<^verbatim>\<open>long long\<close> is \<open>64 cint\<close>. Sums, differences, negations and products
  wrap around, which is what the compiled code does where the language leaves signed
  overflow undefined; the order is that of the signed values \<open>ival\<close>. An unsigned
  integer is a plain \<open>'a word\<close>.
\<close>

typedef (overloaded) 'a cint = "UNIV :: 'a::len word set"
  morphisms repr CInt
  by simp

definition ival :: "'a::len cint \<Rightarrow> int" where
  "ival x = sint (repr x)"

instantiation cint :: (len) comm_ring_1
begin

definition zero_cint :: "'a cint" where "zero_cint = CInt 0"
definition one_cint :: "'a cint" where "one_cint = CInt 1"
definition plus_cint :: "'a cint \<Rightarrow> 'a cint \<Rightarrow> 'a cint" where
  "plus_cint x y = CInt (repr x + repr y)"
definition minus_cint :: "'a cint \<Rightarrow> 'a cint \<Rightarrow> 'a cint" where
  "minus_cint x y = CInt (repr x - repr y)"
definition uminus_cint :: "'a cint \<Rightarrow> 'a cint" where
  "uminus_cint x = CInt (- repr x)"
definition times_cint :: "'a cint \<Rightarrow> 'a cint \<Rightarrow> 'a cint" where
  "times_cint x y = CInt (repr x * repr y)"

instance
  by standard
    (simp_all add: zero_cint_def one_cint_def plus_cint_def minus_cint_def uminus_cint_def
      times_cint_def repr_inject [symmetric] CInt_inverse algebra_simps)

end

instantiation cint :: (len) linorder
begin

definition less_eq_cint :: "'a cint \<Rightarrow> 'a cint \<Rightarrow> bool" where
  "less_eq_cint x y \<longleftrightarrow> ival x \<le> ival y"
definition less_cint :: "'a cint \<Rightarrow> 'a cint \<Rightarrow> bool" where
  "less_cint x y \<longleftrightarrow> ival x < ival y"

instance
proof
  fix x y z :: "'a cint"
  show "(x < y) = (x \<le> y \<and> \<not> y \<le> x)" by (auto simp: less_eq_cint_def less_cint_def)
  show "x \<le> x" by (simp add: less_eq_cint_def)
  show "x \<le> y \<Longrightarrow> y \<le> z \<Longrightarrow> x \<le> z" by (simp add: less_eq_cint_def)
  show "x \<le> y \<Longrightarrow> y \<le> x \<Longrightarrow> x = y"
  proof -
    assume "x \<le> y" "y \<le> x"
    then have "sint (repr x) = sint (repr y)" by (simp add: less_eq_cint_def ival_def)
    then have "repr x = repr y" by (rule signed_word_eqI)
    then show "x = y" by (simp add: repr_inject)
  qed
  show "x \<le> y \<or> y \<le> x" by (auto simp: less_eq_cint_def)
qed

end

text \<open>
  The conversions between integer types: signed to signed (\<open>cint_cast\<close>, which keeps
  the value where the target holds it) and unsigned to signed (\<open>cint_of_unsigned\<close>).
  A \<^verbatim>\<open>double\<close> is a \<open>real\<close> in the few places that need one, all of them at values
  a \<^verbatim>\<open>double\<close> holds exactly; its conversion to an integer drops the fraction and
  is used at values inside the range of the integer type only (outside it the
  language leaves the conversion undefined).
\<close>

definition cint_cast :: "'a::len cint \<Rightarrow> 'b::len cint" where
  "cint_cast x = CInt (scast (repr x))"


definition truncate_to_int :: "real \<Rightarrow> int" where
  "truncate_to_int x = (if 0 \<le> x then \<lfloor>x\<rfloor> else \<lceil>x\<rceil>)"

definition cint_of_double :: "real \<Rightarrow> 'a::len cint" where
  "cint_of_double x = CInt (word_of_int (truncate_to_int x))"

definition double_of_cint :: "'a::len cint \<Rightarrow> real" where
  "double_of_cint x = real_of_int (ival x)"

section \<open>VertexInfo: the border-distance profile\<close>

text \<open>
  \<^verbatim>\<open>template<typename V, typename W> class VertexInfo\<close> with its three private fields.
  The numeric template parameters are type variables, and the arithmetic and the
  order of an element type are those of its instance: wrapping for the machine
  integers above. The element types are taken to have at least the rank of \<^verbatim>\<open>int\<close>, so
  that the difference of two \<open>V\<close> (or \<open>W\<close>) values is computed in \<open>V\<close> (or \<open>W\<close>).
\<close>

record ('v, 'w) VertexInfo =
  borderCount :: int
  borderSPLength :: "'w list"
  borderSPCount :: "'v list"

text \<open>The class invariant: both vectors hold \<open>borderCount\<close> elements.\<close>

definition wellformed :: "('v, 'w) VertexInfo \<Rightarrow> bool" where
  "wellformed p \<longleftrightarrow>
     0 \<le> borderCount p \<and>
     int (length (borderSPLength p)) = borderCount p \<and>
     int (length (borderSPCount p)) = borderCount p"

text \<open>\<^verbatim>\<open>VertexInfo(int borderCount)\<close>: two value-initialised vectors of that size.\<close>

definition VertexInfo_init :: "int \<Rightarrow> error + ('v::zero, 'w::zero) VertexInfo" where
  "VertexInfo_init n =
     (if n < 0 then Inl LengthError
      else Inr \<lparr>borderCount = n,
                borderSPLength = replicate (nat n) 0,
                borderSPCount = replicate (nat n) 0\<rparr>)"

text \<open>The four accessors. The guard is the source's: \<^verbatim>\<open>storeIndex < _borderCount\<close> only.\<close>

definition setBorderSPLength :: "('v, 'w) VertexInfo \<Rightarrow> int \<Rightarrow> 'w \<Rightarrow> error + ('v, 'w) VertexInfo" where
  "setBorderSPLength p storeIndex len =
     (if storeIndex < borderCount p then
        (case vec_set (borderSPLength p) storeIndex len of
           Inl e \<Rightarrow> Inl e
         | Inr v \<Rightarrow> Inr (p\<lparr>borderSPLength := v\<rparr>))
      else Inl OutOfRange)"

definition getBorderSPLength :: "('v, 'w) VertexInfo \<Rightarrow> int \<Rightarrow> error + 'w" where
  "getBorderSPLength p storeIndex =
     (if storeIndex < borderCount p then vec_at (borderSPLength p) storeIndex
      else Inl OutOfRange)"

definition setBorderSPCount :: "('v, 'w) VertexInfo \<Rightarrow> int \<Rightarrow> 'v \<Rightarrow> error + ('v, 'w) VertexInfo" where
  "setBorderSPCount p storeIndex cnt =
     (if storeIndex < borderCount p then
        (case vec_set (borderSPCount p) storeIndex cnt of
           Inl e \<Rightarrow> Inl e
         | Inr v \<Rightarrow> Inr (p\<lparr>borderSPCount := v\<rparr>))
      else Inl OutOfRange)"

definition getBorderSPCount :: "('v, 'w) VertexInfo \<Rightarrow> int \<Rightarrow> error + 'v" where
  "getBorderSPCount p storeIndex =
     (if storeIndex < borderCount p then vec_at (borderSPCount p) storeIndex
      else Inl OutOfRange)"




text \<open>\<^verbatim>\<open>v[i] = f(v[i])\<close>, the compound assignments \<^verbatim>\<open>v[i] -= x\<close>, \<^verbatim>\<open>v[i] += x\<close>, ...\<close>

definition vec_modify :: "'a list \<Rightarrow> int \<Rightarrow> ('a \<Rightarrow> 'a) \<Rightarrow> error + 'a list" where
  "vec_modify v i f =
     (if 0 \<le> i \<and> i < int (length v) then Inr (v[nat i := f (v ! nat i)])
      else Inl UncheckedAccess)"


definition reset :: "('v::zero, 'w::zero) VertexInfo \<Rightarrow> ('v, 'w) VertexInfo" where
  "reset p = p\<lparr>borderSPLength := replicate (nat (borderCount p)) 0,
               borderSPCount := replicate (nat (borderCount p)) 0\<rparr>"

definition borders :: "('v, 'w) VertexInfo \<Rightarrow> int" where
  "borders p = borderCount p"

text \<open>
  \<^verbatim>\<open>squaredDistance\<close> of a \<^verbatim>\<open>VertexInfo<V, W>\<close> against a \<^verbatim>\<open>VertexInfo<N, E>\<close>. What
  depends on the numeric types is a parameter: \<open>castW\<close> is \<^verbatim>\<open>(W)\<close> on an \<open>E\<close> and
  \<open>castV\<close> is \<^verbatim>\<open>(V)\<close> on an \<open>N\<close>; \<open>powW\<close> and \<open>powV\<close> are \<^verbatim>\<open>std::pow(x, 2)\<close> on an
  argument of type \<open>W\<close> and of type \<open>V\<close>, with their result in the floating-point type
  \<open>'d\<close> that \<^verbatim>\<open>std::pow\<close> returns; \<open>add_assign\<close> is \<^verbatim>\<open>sqDistance += d\<close> for the \<open>W\<close>
  accumulator and such a result (the sum is taken in the floating-point type and
  converted back to \<open>W\<close>). The two subtractions are those of \<open>W\<close> and of \<open>V\<close>. The
  loop runs in source order, as it does when \<^verbatim>\<open>#pragma omp simd reduction\<close> is not
  compiled in; the reduction may add in another order, which makes no difference
  where \<^verbatim>\<open>+=\<close> is an exact addition.
\<close>

definition squaredDistance ::
  "('e \<Rightarrow> 'w) \<Rightarrow> ('n \<Rightarrow> 'v) \<Rightarrow> ('w \<Rightarrow> 'd) \<Rightarrow> ('v \<Rightarrow> 'd) \<Rightarrow> ('w \<Rightarrow> 'd \<Rightarrow> 'w) \<Rightarrow>
   ('v::minus, 'w::{minus,zero}) VertexInfo \<Rightarrow> ('n, 'e) VertexInfo \<Rightarrow> error + 'w" where
  "squaredDistance castW castV powW powV add_assign p other =
     for_loop 0 (borderCount p)
       (\<lambda>i sqDistance.
          case vec_at (borderSPLength p) i of Inl e \<Rightarrow> Inl e | Inr l \<Rightarrow>
         (case vec_at (borderSPLength other) i of Inl e \<Rightarrow> Inl e | Inr l' \<Rightarrow>
         (case vec_at (borderSPCount p) i of Inl e \<Rightarrow> Inl e | Inr c \<Rightarrow>
         (case vec_at (borderSPCount other) i of Inl e \<Rightarrow> Inl e | Inr c' \<Rightarrow>
            Inr (add_assign (add_assign sqDistance (powW (l - castW l')))
                            (powV (c - castV c')))))))
       0"

text \<open>
  The four in-place elementwise operators share one loop shape,
  \<^verbatim>\<open>_borderSPLength[i] op= other._borderSPLength[i]; _borderSPCount[i] op= other._borderSPCount[i]\<close>,
  for \<open>i\<close> below this profile's \<^verbatim>\<open>_borderCount\<close>; \<open>opW\<close> and \<open>opV\<close> are the operator at
  the two element types, which may have no result (division).
\<close>

definition elementwise_assign ::
  "('w \<Rightarrow> 'e \<Rightarrow> error + 'w) \<Rightarrow> ('v \<Rightarrow> 'n \<Rightarrow> error + 'v) \<Rightarrow>
   ('v, 'w) VertexInfo \<Rightarrow> ('n, 'e) VertexInfo \<Rightarrow> error + ('v, 'w) VertexInfo" where
  "elementwise_assign opW opV p other =
     for_loop 0 (borderCount p)
       (\<lambda>i p.
          case vec_at (borderSPLength p) i of Inl e \<Rightarrow> Inl e | Inr l \<Rightarrow>
         (case vec_at (borderSPLength other) i of Inl e \<Rightarrow> Inl e | Inr l' \<Rightarrow>
         (case opW l l' of Inl e \<Rightarrow> Inl e | Inr l'' \<Rightarrow>
         (case vec_set (borderSPLength p) i l'' of Inl e \<Rightarrow> Inl e | Inr ls \<Rightarrow>
         (case vec_at (borderSPCount p) i of Inl e \<Rightarrow> Inl e | Inr c \<Rightarrow>
         (case vec_at (borderSPCount other) i of Inl e \<Rightarrow> Inl e | Inr c' \<Rightarrow>
         (case opV c c' of Inl e \<Rightarrow> Inl e | Inr c'' \<Rightarrow>
         (case vec_set (borderSPCount p) i c'' of Inl e \<Rightarrow> Inl e | Inr cs \<Rightarrow>
            Inr (p\<lparr>borderSPLength := ls, borderSPCount := cs\<rparr>)))))))))
       p"

text \<open>
  The operators between two profiles of one parameterisation, where the operator is
  that of the element type; between profiles of two parameterisations the loop is
  \<open>elementwise_assign\<close> at the mixed operator.
\<close>

definition op_plus_assign ::
  "('v::plus, 'w::plus) VertexInfo \<Rightarrow> ('v, 'w) VertexInfo \<Rightarrow> error + ('v, 'w) VertexInfo" where
  "op_plus_assign p other =
     elementwise_assign (\<lambda>l l'. Inr (l + l')) (\<lambda>c c'. Inr (c + c')) p other"

definition op_minus_assign ::
  "('v::minus, 'w::minus) VertexInfo \<Rightarrow> ('v, 'w) VertexInfo \<Rightarrow> error + ('v, 'w) VertexInfo" where
  "op_minus_assign p other =
     elementwise_assign (\<lambda>l l'. Inr (l - l')) (\<lambda>c c'. Inr (c - c')) p other"

definition op_times_assign ::
  "('v::times, 'w::times) VertexInfo \<Rightarrow> ('v, 'w) VertexInfo \<Rightarrow> error + ('v, 'w) VertexInfo" where
  "op_times_assign p other =
     elementwise_assign (\<lambda>l l'. Inr (l * l')) (\<lambda>c c'. Inr (c * c')) p other"

text \<open>
  The quotient is the numeric type's own, so \<^verbatim>\<open>/=\<close> takes it as parameters: \<open>divW x y\<close>
  and \<open>divV x y\<close> are the quotient where the type has one and \<open>None\<close> where it has none
  (an integer divided by zero, the least integer divided by -1). \<open>cint_quotient\<close> is
  the quotient of the machine integers, which truncates.
\<close>

definition native_quotient :: "('a \<Rightarrow> 'b \<Rightarrow> 'a option) \<Rightarrow> 'a \<Rightarrow> 'b \<Rightarrow> error + 'a" where
  "native_quotient dv x y =
     (case dv x y of None \<Rightarrow> Inl UndefinedDivision | Some q \<Rightarrow> Inr q)"

definition cint_quotient :: "'a::len cint \<Rightarrow> 'a cint \<Rightarrow> 'a cint option" where
  "cint_quotient x y =
     (if ival y = 0 \<or> (ival x = - (2 ^ (LENGTH('a) - 1)) \<and> ival y = - 1) then None
      else Some (CInt (word_of_int (sgn (ival x) * sgn (ival y) * (\<bar>ival x\<bar> div \<bar>ival y\<bar>)))))"

definition op_divide_assign ::
  "('w \<Rightarrow> 'e \<Rightarrow> 'w option) \<Rightarrow> ('v \<Rightarrow> 'n \<Rightarrow> 'v option) \<Rightarrow>
   ('v, 'w) VertexInfo \<Rightarrow> ('n, 'e) VertexInfo \<Rightarrow> error + ('v, 'w) VertexInfo" where
  "op_divide_assign divW divV p other =
     elementwise_assign (native_quotient divW) (native_quotient divV) p other"

text \<open>The binary operators copy \<^verbatim>\<open>*this\<close> and apply the in-place operator to the copy.\<close>

definition op_plus ::
  "('v::plus, 'w::plus) VertexInfo \<Rightarrow> ('v, 'w) VertexInfo \<Rightarrow> error + ('v, 'w) VertexInfo" where
  "op_plus p other = (let copy = p in op_plus_assign copy other)"

definition op_minus ::
  "('v::minus, 'w::minus) VertexInfo \<Rightarrow> ('v, 'w) VertexInfo \<Rightarrow> error + ('v, 'w) VertexInfo" where
  "op_minus p other = (let copy = p in op_minus_assign copy other)"

definition op_times ::
  "('v::times, 'w::times) VertexInfo \<Rightarrow> ('v, 'w) VertexInfo \<Rightarrow> error + ('v, 'w) VertexInfo" where
  "op_times p other = (let copy = p in op_times_assign copy other)"

definition op_divide ::
  "('w \<Rightarrow> 'e \<Rightarrow> 'w option) \<Rightarrow> ('v \<Rightarrow> 'n \<Rightarrow> 'v option) \<Rightarrow>
   ('v, 'w) VertexInfo \<Rightarrow> ('n, 'e) VertexInfo \<Rightarrow> error + ('v, 'w) VertexInfo" where
  "op_divide divW divV p other = (let copy = p in op_divide_assign divW divV copy other)"

text \<open>
  \<^verbatim>\<open>compare\<close>, for two profiles of the same parameterisation. The loop returns from
  inside its body, so it is a recursion of its own; \<open>i\<close> is the loop counter.
  \<^verbatim>\<open>W cmp = _borderSPCount[i] - other._borderSPCount[i]\<close> subtracts in \<open>V\<close> and converts
  the difference to \<open>W\<close> (\<open>widen\<close>).
\<close>

function compare_from ::
  "('v::minus \<Rightarrow> 'w::{minus,zero}) \<Rightarrow> ('v, 'w) VertexInfo \<Rightarrow> ('v, 'w) VertexInfo \<Rightarrow> int \<Rightarrow> error + 'w" where
  "compare_from widen p other i =
     (if i < borderCount p then
        (case vec_at (borderSPCount p) i of Inl e \<Rightarrow> Inl e | Inr c \<Rightarrow>
        (case vec_at (borderSPCount other) i of Inl e \<Rightarrow> Inl e | Inr c' \<Rightarrow>
           if widen (c - c') \<noteq> 0 then Inr (widen (c - c'))
           else
             (case vec_at (borderSPLength p) i of Inl e \<Rightarrow> Inl e | Inr l \<Rightarrow>
             (case vec_at (borderSPLength other) i of Inl e \<Rightarrow> Inl e | Inr l' \<Rightarrow>
                if l - l' \<noteq> 0 then Inr (l - l')
                else compare_from widen p other (i + 1)))))
      else Inr 0)"
  by pat_completeness auto
termination
  by (relation "measure (\<lambda>(widen, p, other, i). nat (borderCount p - i))") auto

declare compare_from.simps [simp del]

definition compare ::
  "('v::minus \<Rightarrow> 'w::{minus,zero}) \<Rightarrow> ('v, 'w) VertexInfo \<Rightarrow> ('v, 'w) VertexInfo \<Rightarrow> error + 'w" where
  "compare widen p other = compare_from widen p other 0"



text \<open>
  \<^verbatim>\<open>compare\<close> against a profile of another parameterisation \<^verbatim>\<open>VertexInfo<N, E>\<close>, the
  same loop: \<^verbatim>\<open>_borderSPCount[i] - other._borderSPCount[i]\<close> is then the difference of a
  \<open>V\<close> and an \<open>N\<close>, taken in their common type and converted to \<open>W\<close> by the
  initialisation of \<^verbatim>\<open>cmp\<close>. \<open>diffV\<close> is that difference with its conversion, \<open>diffW\<close>
  the same for the lengths.
\<close>

function compare_mixed_from ::
  "('v \<Rightarrow> 'n \<Rightarrow> 'w) \<Rightarrow> ('w \<Rightarrow> 'e \<Rightarrow> 'w) \<Rightarrow> ('v, 'w::zero) VertexInfo \<Rightarrow> ('n, 'e) VertexInfo
   \<Rightarrow> int \<Rightarrow> error + 'w" where
  "compare_mixed_from diffV diffW p other i =
     (if i < borderCount p then
        (case vec_at (borderSPCount p) i of Inl e \<Rightarrow> Inl e | Inr c \<Rightarrow>
        (case vec_at (borderSPCount other) i of Inl e \<Rightarrow> Inl e | Inr c' \<Rightarrow>
           if diffV c c' \<noteq> 0 then Inr (diffV c c')
           else
             (case vec_at (borderSPLength p) i of Inl e \<Rightarrow> Inl e | Inr l \<Rightarrow>
             (case vec_at (borderSPLength other) i of Inl e \<Rightarrow> Inl e | Inr l' \<Rightarrow>
                if diffW l l' \<noteq> 0 then Inr (diffW l l')
                else compare_mixed_from diffV diffW p other (i + 1)))))
      else Inr 0)"
  by pat_completeness auto
termination
  by (relation "measure (\<lambda>(diffV, diffW, p, other, i). nat (borderCount p - i))") auto

declare compare_mixed_from.simps [simp del]

definition compare_mixed ::
  "('v \<Rightarrow> 'n \<Rightarrow> 'w) \<Rightarrow> ('w \<Rightarrow> 'e \<Rightarrow> 'w) \<Rightarrow> ('v, 'w::zero) VertexInfo \<Rightarrow> ('n, 'e) VertexInfo
   \<Rightarrow> error + 'w" where
  "compare_mixed diffV diffW p other = compare_mixed_from diffV diffW p other 0"



subsection \<open>Reference functions for the statements about VertexInfo\<close>

text \<open>
  The differences \<open>compare\<close> looks at, as lists over the border indices, and the two
  orders in which they can be scanned for the first nonzero one: every count
  difference before every length difference (\<open>compare_counts_first\<close>), or index by
  index, the count before the length at each index (\<open>compare_index_first\<close>).
\<close>

fun first_nonzero :: "'a::zero list \<Rightarrow> 'a" where
  "first_nonzero [] = 0"
| "first_nonzero (x # xs) = (if x \<noteq> 0 then x else first_nonzero xs)"

fun interleave :: "'a list \<Rightarrow> 'a list \<Rightarrow> 'a list" where
  "interleave (x # xs) (y # ys) = x # y # interleave xs ys"
| "interleave [] ys = []"
| "interleave xs [] = []"

definition count_differences ::
  "('v::minus \<Rightarrow> 'w) \<Rightarrow> ('v, 'w) VertexInfo \<Rightarrow> ('v, 'w) VertexInfo \<Rightarrow> 'w list" where
  "count_differences widen p other =
     map (\<lambda>(c, c'). widen (c - c')) (zip (borderSPCount p) (borderSPCount other))"

definition length_differences ::
  "('v, 'w::minus) VertexInfo \<Rightarrow> ('v, 'w) VertexInfo \<Rightarrow> 'w list" where
  "length_differences p other =
     map (\<lambda>(l, l'). l - l') (zip (borderSPLength p) (borderSPLength other))"

definition compare_counts_first ::
  "('v::minus \<Rightarrow> 'w::{minus,zero}) \<Rightarrow> ('v, 'w) VertexInfo \<Rightarrow> ('v, 'w) VertexInfo \<Rightarrow> 'w" where
  "compare_counts_first widen p other =
     first_nonzero (count_differences widen p other @ length_differences p other)"

definition compare_index_first ::
  "('v::minus \<Rightarrow> 'w::{minus,zero}) \<Rightarrow> ('v, 'w) VertexInfo \<Rightarrow> ('v, 'w) VertexInfo \<Rightarrow> 'w" where
  "compare_index_first widen p other =
     first_nonzero (interleave (count_differences widen p other) (length_differences p other))"

text \<open>
  The squared distance in three readings. \<open>squaredDistance_running\<close> is the running
  sum as the code builds it: from 0, index by index, first the square of the length
  difference and then the square of the count difference are added by \<^verbatim>\<open>+=\<close>, the
  other length cast to \<open>W\<close>, the other count cast to \<open>V\<close> and subtracted in \<open>V\<close>.
  \<open>squaredDistance_sum\<close> is the sum of those squares, each taken to \<open>W\<close> by \<open>conv\<close>.
  \<open>squaredDistance_in_W\<close> is the sum with the count terms computed in \<open>W\<close>: both
  counts are taken to \<open>W\<close>, by \<open>widen\<close> and \<open>castNW\<close>, and subtracted there.
\<close>

definition squaredDistance_running ::
  "('e \<Rightarrow> 'w) \<Rightarrow> ('n \<Rightarrow> 'v) \<Rightarrow> ('w \<Rightarrow> 'd) \<Rightarrow> ('v \<Rightarrow> 'd) \<Rightarrow> ('w \<Rightarrow> 'd \<Rightarrow> 'w) \<Rightarrow>
   ('v::minus, 'w::{minus,zero}) VertexInfo \<Rightarrow> ('n, 'e) VertexInfo \<Rightarrow> 'w" where
  "squaredDistance_running castW castV powW powV add_assign p other =
     foldl (\<lambda>sq i.
              add_assign
                (add_assign sq (powW (borderSPLength p ! i - castW (borderSPLength other ! i))))
                (powV (borderSPCount p ! i - castV (borderSPCount other ! i))))
           0 [0..<nat (borderCount p)]"




definition pow2_int :: "32 cint \<Rightarrow> real" where
  "pow2_int x = (double_of_cint x)\<^sup>2"


definition add_assign_int :: "32 cint \<Rightarrow> real \<Rightarrow> 32 cint" where
  "add_assign_int sq d = cint_of_double (double_of_cint sq + d)"



text \<open>
  What an elementwise operator leaves in a profile when it runs through: the operator
  applied index by index to this profile's elements and the first \<open>borderCount p\<close>
  elements of the other.
\<close>

definition pointwise ::
  "('w \<Rightarrow> 'e \<Rightarrow> 'w) \<Rightarrow> ('v \<Rightarrow> 'n \<Rightarrow> 'v) \<Rightarrow>
   ('v, 'w) VertexInfo \<Rightarrow> ('n, 'e) VertexInfo \<Rightarrow> ('v, 'w) VertexInfo" where
  "pointwise opW opV p other =
     p\<lparr>borderSPLength :=
         map (\<lambda>(l, l'). opW l l')
           (zip (borderSPLength p) (take (nat (borderCount p)) (borderSPLength other))),
       borderSPCount :=
         map (\<lambda>(c, c'). opV c c')
           (zip (borderSPCount p) (take (nat (borderCount p)) (borderSPCount other)))\<rparr>"

text \<open>
  Whether \<^verbatim>\<open>/=\<close> finds a quotient at every index it visits, and the quotient it then
  leaves there.
\<close>

definition quotients_defined ::
  "('w \<Rightarrow> 'e \<Rightarrow> 'w option) \<Rightarrow> ('v \<Rightarrow> 'n \<Rightarrow> 'v option) \<Rightarrow>
   ('v, 'w) VertexInfo \<Rightarrow> ('n, 'e) VertexInfo \<Rightarrow> bool" where
  "quotients_defined divW divV p other \<longleftrightarrow>
     (\<forall>i < nat (borderCount p).
        divW (borderSPLength p ! i) (borderSPLength other ! i) \<noteq> None \<and>
        divV (borderSPCount p ! i) (borderSPCount other ! i) \<noteq> None)"

definition defined_quotient :: "('a \<Rightarrow> 'b \<Rightarrow> 'a option) \<Rightarrow> 'a \<Rightarrow> 'b \<Rightarrow> 'a" where
  "defined_quotient dv x y = (case dv x y of None \<Rightarrow> x | Some q \<Rightarrow> q)"

text \<open>A profile cut down to its first \<open>n\<close> borders.\<close>

definition first_borders :: "int \<Rightarrow> ('v, 'w) VertexInfo \<Rightarrow> ('v, 'w) VertexInfo" where
  "first_borders n p =
     p\<lparr>borderCount := n,
       borderSPLength := take (nat n) (borderSPLength p),
       borderSPCount := take (nat n) (borderSPCount p)\<rparr>"

section \<open>LouvainEvaluator: the multilevel clustering loop\<close>

text \<open>
  \<^verbatim>\<open>renumber_communities(comms, n2c)\<close>: three loops, over the marker array
  \<^verbatim>\<open>renumber\<close> (filled with -1), over the ids to number the marked ones from 0 with
  \<^verbatim>\<open>final\<close>, and over \<^verbatim>\<open>comms\<close> to rewrite it in place.
\<close>

definition renumber_communities :: "int list \<Rightarrow> int list \<Rightarrow> error + int list" where
  "renumber_communities comms n2c =
     (case for_loop 0 (int (length n2c))
             (\<lambda>node renumber.
                case vec_at n2c node of Inl e \<Rightarrow> Inl e | Inr c \<Rightarrow>
                  vec_modify renumber c (\<lambda>x. x + 1))
             (replicate (length n2c) (- 1)) of
        Inl e \<Rightarrow> Inl e
      | Inr renumber \<Rightarrow>
         (case for_loop 0 (int (length n2c))
                 (\<lambda>i (renumber, final).
                    case vec_at renumber i of Inl e \<Rightarrow> Inl e | Inr r \<Rightarrow>
                      if r \<noteq> - 1 then
                        (case vec_set renumber i final of Inl e \<Rightarrow> Inl e
                         | Inr renumber' \<Rightarrow> Inr (renumber', final + 1))
                      else Inr (renumber, final))
                 (renumber, 0) of
            Inl e \<Rightarrow> Inl e
          | Inr (renumber, final) \<Rightarrow>
              for_loop 0 (int (length comms))
                (\<lambda>i comms.
                   case vec_at comms i of Inl e \<Rightarrow> Inl e | Inr old_community \<Rightarrow>
                  (case vec_at n2c old_community of Inl e \<Rightarrow> Inl e | Inr new_community \<Rightarrow>
                  (case vec_at renumber new_community of Inl e \<Rightarrow> Inl e
                   | Inr new_renumbered_community \<Rightarrow>
                       vec_set comms i new_renumbered_community)))
                comms))"

text \<open>
  Modelled from the spec: \<^verbatim>\<open>Community\<close> (\<^verbatim>\<open>louvain/Community.h\<close> is not among the
  sources) is ``constructed from a graph reference; exposes \<^verbatim>\<open>add(vertexId)\<close>'' and
  holds ``its member original-vertex ids''. A community is the list of the vertex
  ids added to it, in the order of the \<^verbatim>\<open>add\<close> calls, empty when constructed.
\<close>

definition Community_add :: "int list \<Rightarrow> int \<Rightarrow> int list" where
  "Community_add community v = community @ [v]"

text \<open>
  \<^verbatim>\<open>build_result(n2c, g)\<close>. \<^verbatim>\<open>r.resize(max + 1)\<close> and the loop that gives every slot
  a new \<^verbatim>\<open>Community\<close> together leave \<^verbatim>\<open>max + 1\<close> empty communities (\<open>max_id\<close> is the
  local \<^verbatim>\<open>max\<close>).
\<close>

definition build_result :: "int list \<Rightarrow> error + int list list" where
  "build_result n2c =
     (case for_loop 0 (int (length n2c))
             (\<lambda>i max_id. case vec_at n2c i of Inl e \<Rightarrow> Inl e
                           | Inr c \<Rightarrow> Inr (if c > max_id then c else max_id))
             0 of
        Inl e \<Rightarrow> Inl e
      | Inr max_id \<Rightarrow>
          for_loop 0 (int (length n2c))
            (\<lambda>i r. case vec_at n2c i of Inl e \<Rightarrow> Inl e | Inr c \<Rightarrow>
                      vec_modify r c (\<lambda>community. Community_add community i))
            (replicate (nat (max_id + 1)) []))"

text \<open>
  The selection of lines 111 to 114:
  \<^verbatim>\<open>int best_i = 0; for (i = 1; i < parallelism; i++) if (modularities[i] > modularities[best_i]) best_i = i;\<close>
\<close>

definition select_best :: "'m::linorder list \<Rightarrow> int \<Rightarrow> error + int" where
  "select_best modularities parallelism =
     for_loop 1 parallelism
       (\<lambda>i best_i.
          case vec_at modularities i of Inl e \<Rightarrow> Inl e | Inr mi \<Rightarrow>
         (case vec_at modularities best_i of Inl e \<Rightarrow> Inl e | Inr mb \<Rightarrow>
            Inr (if mi > mb then i else best_i)))
       0"

text \<open>
  \<^verbatim>\<open>Partition\<close> and \<^verbatim>\<open>LouvainGraph\<close> are included by the file but are not part of
  it. A graph is a value of a type variable \<open>'g\<close>, with its \<^verbatim>\<open>nb_nodes\<close> read by a
  parameter \<open>nb_nodes\<close>. A \<open>Partition\<close> record is what \<^verbatim>\<open>evaluateGraph\<close> reads from
  one \<^verbatim>\<open>Partition<V, W>\<close> after its \<^verbatim>\<open>one_level()\<close> call: the returned flag,
  \<^verbatim>\<open>modularity()\<close>, the public vector \<^verbatim>\<open>n2c\<close> and \<^verbatim>\<open>partition2graph()\<close>. The
  parameter \<open>run lvl i g\<close> of the functions below gives that record for the \<open>i\<close>-th
  attempt of level \<open>lvl\<close> on the graph \<open>g\<close>. Modularities are compared with \<open>>\<close>
  only, so their type is any linear order. Console output is left out.
\<close>

record ('g, 'm) Partition =
  one_level :: bool
  modularity :: 'm
  n2c :: "int list"
  partition2graph :: 'g

text \<open>The variables of \<^verbatim>\<open>evaluateGraph\<close> that live across the levels.\<close>

record 'g level_state =
  g :: 'g
  comms :: "int list"
  level :: int

text \<open>
  The attempts of one level, as the vector \<^verbatim>\<open>p\<close> after the parallel loop: attempt \<open>i\<close>
  works on its own \<^verbatim>\<open>p[i]\<close> and writes its own slots of \<^verbatim>\<open>improvements\<close> and
  \<^verbatim>\<open>modularities\<close>, so the outcome is the list of the single outcomes.
\<close>

definition attempts ::
  "(int \<Rightarrow> int \<Rightarrow> 'g \<Rightarrow> ('g, 'm) Partition) \<Rightarrow> int \<Rightarrow> 'g level_state \<Rightarrow> ('g, 'm) Partition list" where
  "attempts run parallelism st =
     map (\<lambda>i. run (level st) (int i) (g st)) [0..<nat parallelism]"

text \<open>
  One pass through the body of the \<^verbatim>\<open>do\<close> loop: the flag \<^verbatim>\<open>improvement\<close> it leaves
  for the loop condition, and the next state.
\<close>

definition level_body ::
  "(int \<Rightarrow> int \<Rightarrow> 'g \<Rightarrow> ('g, 'm::linorder) Partition) \<Rightarrow> int \<Rightarrow> 'g level_state
   \<Rightarrow> error + (bool \<times> 'g level_state)" where
  "level_body run parallelism st =
     (let p = attempts run parallelism st;
          improvements = map one_level p;
          modularities = map modularity p
      in case select_best modularities parallelism of Inl e \<Rightarrow> Inl e | Inr best_i \<Rightarrow>
        (case vec_at improvements best_i of Inl e \<Rightarrow> Inl e | Inr improvement \<Rightarrow>
        (case vec_at p best_i of Inl e \<Rightarrow> Inl e | Inr winner \<Rightarrow>
        (case renumber_communities (comms st) (n2c winner) of Inl e \<Rightarrow> Inl e
         | Inr comms' \<Rightarrow>
             Inr (improvement,
                  \<lparr>g = partition2graph winner, comms = comms', level = level st + 1\<rparr>)))))"

text \<open>
  \<^verbatim>\<open>do { ... } while (improvement);\<close> Nothing in the file bounds the number of
  levels, so the loop is a partial function: \<open>None\<close> when it runs forever.
\<close>

partial_function (option) levels ::
  "(int \<Rightarrow> int \<Rightarrow> 'g \<Rightarrow> ('g, 'm::linorder) Partition) \<Rightarrow> int \<Rightarrow> 'g level_state
   \<Rightarrow> (error + 'g level_state) option" where
  "levels run parallelism st =
     (case level_body run parallelism st of
        Inl e \<Rightarrow> Some (Inl e)
      | Inr (improvement, st') \<Rightarrow>
          if improvement then levels run parallelism st' else Some (Inr st'))"

text \<open>
  \<^verbatim>\<open>evaluateGraph\<close>. The private field \<^verbatim>\<open>parallelism\<close> (initialised to 4, with no
  setter in the class) is the parameter \<open>parallelism\<close> here and in the functions
  above. The state before the first level: \<^verbatim>\<open>n2c[i] = i\<close> for every node of the graph. (The
  local \<^verbatim>\<open>n2c\<close> of \<^verbatim>\<open>evaluateGraph\<close> is the \<open>comms\<close> of the state, after the name it
  has in \<^verbatim>\<open>renumber_communities\<close>.)
\<close>

definition initial_state :: "('g \<Rightarrow> int) \<Rightarrow> 'g \<Rightarrow> error + 'g level_state" where
  "initial_state nb_nodes graph =
     (if nb_nodes graph < 0 then Inl LengthError
      else
        (case for_loop 0 (nb_nodes graph) (\<lambda>i v. vec_set v i i)
                (replicate (nat (nb_nodes graph)) 0) of
           Inl e \<Rightarrow> Inl e
         | Inr v \<Rightarrow> Inr \<lparr>g = graph, comms = v, level = 0\<rparr>))"

definition evaluateGraph ::
  "('g \<Rightarrow> int) \<Rightarrow> (int \<Rightarrow> int \<Rightarrow> 'g \<Rightarrow> ('g, 'm::linorder) Partition) \<Rightarrow> int \<Rightarrow> 'g
   \<Rightarrow> (error + int list list) option" where
  "evaluateGraph nb_nodes run parallelism graph =
     (case initial_state nb_nodes graph of
        Inl e \<Rightarrow> Some (Inl e)
      | Inr st0 \<Rightarrow>
         (case levels run parallelism st0 of
            None \<Rightarrow> None
          | Some (Inl e) \<Rightarrow> Some (Inl e)
          | Some (Inr st) \<Rightarrow> Some (build_result (comms st))))"

subsection \<open>Reference functions for the statements about LouvainEvaluator\<close>

text \<open>
  Modelled from the spec: \<^verbatim>\<open>louvain/Partition.h\<close> and \<^verbatim>\<open>louvain/LouvainGraph.h\<close> are
  not among the sources. The spec gives a \<open>ClusterPass\<close> ``a readable per-node
  community assignment array, plus a method producing the aggregated graph'', the
  attempt ``starting from every node is its own community'' and moving nodes between
  communities, and the aggregated graph being the one ``where each node is one
  community from the winning attempt''. So: a partition of a graph assigns every node
  of the graph a community id that is a node id of that graph, and the aggregated
  graph has one node for each community id in use.
\<close>

definition partition_contract ::
  "('g \<Rightarrow> int) \<Rightarrow> (int \<Rightarrow> int \<Rightarrow> 'g \<Rightarrow> ('g, 'm) Partition) \<Rightarrow> bool" where
  "partition_contract nb_nodes run \<longleftrightarrow>
     (\<forall>lvl i gr.
        int (length (n2c (run lvl i gr))) = nb_nodes gr \<and>
        (\<forall>c \<in> set (n2c (run lvl i gr)). 0 \<le> c \<and> c < nb_nodes gr) \<and>
        nb_nodes (partition2graph (run lvl i gr)) = int (card (set (n2c (run lvl i gr)))))"

text \<open>The number of ids in use below \<open>c\<close>: the dense number of the community \<open>c\<close>.\<close>

definition dense_rank :: "int list \<Rightarrow> int \<Rightarrow> int" where
  "dense_rank ids c = int (length (filter (\<lambda>c'. c' < c) (remdups ids)))"

text \<open>
  The outcome of the \<open>k\<close>-th pass through the loop body, counted from 0, when the
  passes follow each other whatever the flag says.
\<close>

fun nth_level ::
  "(int \<Rightarrow> int \<Rightarrow> 'g \<Rightarrow> ('g, 'm::linorder) Partition) \<Rightarrow> int \<Rightarrow> nat \<Rightarrow> 'g level_state
   \<Rightarrow> error + (bool \<times> 'g level_state)" where
  "nth_level run parallelism 0 st = level_body run parallelism st"
| "nth_level run parallelism (Suc k) st =
     (case level_body run parallelism st of
        Inl e \<Rightarrow> Inl e
      | Inr (improvement, st') \<Rightarrow> nth_level run parallelism k st')"

text \<open>
  A small instance of the collaborators, for the examples: a graph is its number of
  nodes; on 4 nodes every attempt merges nodes 0, 1 into community 0 and nodes 2, 3
  into community 2 and reports an improvement, with modularities 1, 3, 3, 1 for the
  attempts 0 to 3; on any other graph nothing moves and nothing improves.
\<close>

definition example_run :: "int \<Rightarrow> int \<Rightarrow> nat \<Rightarrow> (nat, int) Partition" where
  "example_run lvl i gr =
     (if gr = 4 then
        \<lparr>one_level = True, modularity = (if i = 1 \<or> i = 2 then 3 else 1),
         n2c = [0, 0, 2, 2], partition2graph = 2\<rparr>
      else
        \<lparr>one_level = False, modularity = 0, n2c = map int [0..<gr], partition2graph = gr\<rparr>)"

text \<open>The members of community \<open>c\<close> under a final mapping, in ascending order.\<close>

definition members :: "int list \<Rightarrow> int \<Rightarrow> int list" where
  "members ids c = filter (\<lambda>i. ids ! nat i = c) (map int [0..<length ids])"

section \<open>Facts about the common machinery\<close>

lemma for_loop_step: "i < n \<Longrightarrow> for_loop i n body s =
    (case body i s of Inl e \<Rightarrow> Inl e | Inr s' \<Rightarrow> for_loop (i + 1) n body s')"
  by (subst for_loop.simps) simp

lemma for_loop_done: "\<not> i < n \<Longrightarrow> for_loop i n body s = Inr s"
  by (subst for_loop.simps) simp

text \<open>The invariant rule of the counted loop: a body that keeps \<open>I\<close> and never fails.\<close>

lemma for_loop_invariant:
  assumes "I i s" and "i \<le> n"
    and "\<And>j t. i \<le> j \<Longrightarrow> j < n \<Longrightarrow> I j t \<Longrightarrow> \<exists>t'. body j t = Inr t' \<and> I (j + 1) t'"
  shows "\<exists>t. for_loop i n body s = Inr t \<and> I n t"
  using assms
proof (induction "nat (n - i)" arbitrary: i s)
  case 0
  then have "i = n" by simp
  with "0.prems"(1) show ?case by (simp add: for_loop_done)
next
  case (Suc k)
  then have lt: "i < n" by linarith
  from Suc.prems(3)[of i s] lt Suc.prems(1)
  obtain t' where b: "body i s = Inr t'" and I': "I (i + 1) t'" by auto
  have "\<exists>t. for_loop (i + 1) n body t' = Inr t \<and> I n t"
  proof (rule Suc.hyps(1))
    show "k = nat (n - (i + 1))" using Suc.hyps(2) by linarith
    show "I (i + 1) t'" by (rule I')
    show "i + 1 \<le> n" using lt by simp
    show "\<And>j t. i + 1 \<le> j \<Longrightarrow> j < n \<Longrightarrow> I j t \<Longrightarrow> \<exists>t'. body j t = Inr t' \<and> I (j + 1) t'"
      using Suc.prems(3) by simp
  qed
  then show ?case using lt b by (simp add: for_loop_step)
qed

section \<open>Out-of-range access\<close>

text \<open>
  At the width and above it the accessors throw, and a profile passed to a setter is
  not returned changed.
\<close>

lemma accessors_upper_bound_checked:
  assumes "borderCount p \<le> storeIndex"
  shows "setBorderSPLength p storeIndex len = Inl OutOfRange"
    and "getBorderSPLength p storeIndex = Inl OutOfRange"
    and "setBorderSPCount p storeIndex cnt = Inl OutOfRange"
    and "getBorderSPCount p storeIndex = Inl OutOfRange"
  using assms
  by (simp_all add: setBorderSPLength_def getBorderSPLength_def setBorderSPCount_def
      getBorderSPCount_def)

text \<open>
  Claim C2 at a negative index: on a profile of width 2 the guard \<open>-1 < 2\<close> holds, so each
  accessor goes on to the unchecked vector access and no out-of-range error is
  signalled.
\<close>

theorem accessors_negative_index_unchecked:
  "setBorderSPLength \<lparr>borderCount = 2, borderSPLength = [3, 4 :: int], borderSPCount = [1, 1 :: int]\<rparr> (- 1) 7
     = Inl UncheckedAccess
   \<and> getBorderSPLength \<lparr>borderCount = 2, borderSPLength = [3, 4 :: int], borderSPCount = [1, 1 :: int]\<rparr> (- 1)
     = Inl UncheckedAccess
   \<and> setBorderSPCount \<lparr>borderCount = 2, borderSPLength = [3, 4 :: int], borderSPCount = [1, 1 :: int]\<rparr> (- 1) 7
     = Inl UncheckedAccess
   \<and> getBorderSPCount \<lparr>borderCount = 2, borderSPLength = [3, 4 :: int], borderSPCount = [1, 1 :: int]\<rparr> (- 1)
     = Inl UncheckedAccess"
  by (simp add: setBorderSPLength_def getBorderSPLength_def setBorderSPCount_def
      getBorderSPCount_def vec_at_def vec_set_def)

section \<open>Facts about the machine integers\<close>

lemma repr_CInt [simp]: "repr (CInt w) = w"
  by (simp add: CInt_inverse)

lemma CInt_repr [simp]: "CInt (repr x) = x"
  by (rule repr_inverse)


lemma ival_CInt [simp]: "ival (CInt w) = sint w"
  by (simp add: ival_def)

lemma CInt_eq_iff [simp]: "(CInt a = CInt b) = (a = b)"
  by (simp add: CInt_inject)

lemma CInt_eq_zero [simp]: "(CInt w = 0) = (w = 0)"
  by (simp add: zero_cint_def)

lemma zero_eq_CInt [simp]: "(0 = CInt w) = (w = 0)"
  by (auto simp: zero_cint_def)

lemma ival_zero [simp]: "ival 0 = 0"
  by (simp add: zero_cint_def)

lemma minus_CInt [simp]: "CInt a - CInt b = CInt (a - b)"
  by (simp add: minus_cint_def)

lemma plus_CInt [simp]: "CInt a + CInt b = CInt (a + b)"
  by (simp add: plus_cint_def)

lemma times_CInt [simp]: "CInt a * CInt b = CInt (a * b)"
  by (simp add: times_cint_def)

lemma uminus_CInt [simp]: "- CInt a = CInt (- a)"
  by (simp add: uminus_cint_def)

lemma less_CInt [simp]: "(CInt a < CInt b) = (sint a < sint b)"
  by (simp add: less_cint_def)

lemma less_eq_CInt [simp]: "(CInt a \<le> CInt b) = (sint a \<le> sint b)"
  by (simp add: less_eq_cint_def)

lemma less_zero_CInt [simp]: "(CInt a < 0) = (sint a < 0)"
  by (simp add: less_cint_def)






section \<open>Minimum and normalisation\<close>







section \<open>Normalisation on machine integers\<close>





section \<open>Comparison\<close>

lemma compare_from_step:
  "i < borderCount p \<Longrightarrow> compare_from widen p other i =
        (case vec_at (borderSPCount p) i of Inl e \<Rightarrow> Inl e | Inr c \<Rightarrow>
        (case vec_at (borderSPCount other) i of Inl e \<Rightarrow> Inl e | Inr c' \<Rightarrow>
           if widen (c - c') \<noteq> 0 then Inr (widen (c - c'))
           else
             (case vec_at (borderSPLength p) i of Inl e \<Rightarrow> Inl e | Inr l \<Rightarrow>
             (case vec_at (borderSPLength other) i of Inl e \<Rightarrow> Inl e | Inr l' \<Rightarrow>
                if l - l' \<noteq> 0 then Inr (l - l')
                else compare_from widen p other (i + 1)))))"
  by (subst compare_from.simps) simp

lemma compare_from_done: "\<not> i < borderCount p \<Longrightarrow> compare_from widen p other i = Inr 0"
  by (subst compare_from.simps) simp

lemma vec_at_in_range: "0 \<le> i \<Longrightarrow> nat i < length v \<Longrightarrow> vec_at v i = Inr (v ! nat i)"
  unfolding vec_at_def by (simp add: nat_less_iff)

lemma drop_zip_map_step:
  assumes "k < length xs" "k < length ys"
  shows "drop k (map f (zip xs ys)) = f (xs ! k, ys ! k) # drop (Suc k) (map f (zip xs ys))"
proof -
  have "k < length (map f (zip xs ys))" using assms by simp
  then have "drop k (map f (zip xs ys)) = map f (zip xs ys) ! k # drop (Suc k) (map f (zip xs ys))"
    by (rule Cons_nth_drop_Suc[symmetric])
  then show ?thesis using assms by simp
qed

lemma compare_from_scan:
  fixes p other :: "('v::minus, 'w::{minus,zero}) VertexInfo"
  assumes "wellformed p" "wellformed other" "borderCount p = borderCount other"
    and "0 \<le> i" "i \<le> borderCount p"
  shows "compare_from widen p other i =
         Inr (first_nonzero (interleave (drop (nat i) (count_differences widen p other))
                                        (drop (nat i) (length_differences p other))))"
  using assms(4,5)
proof (induction "nat (borderCount p - i)" arbitrary: i)
  case 0
  then have "i = borderCount p" by simp
  moreover have "length (count_differences widen p other) = nat (borderCount p)"
    using assms(1-3) by (auto simp: count_differences_def wellformed_def)
  ultimately show ?case by (simp add: compare_from_done)
next
  case (Suc k)
  then have lt: "i < borderCount p" by linarith
  let ?k = "nat i"
  have lens: "?k < length (borderSPCount p)" "?k < length (borderSPCount other)"
      "?k < length (borderSPLength p)" "?k < length (borderSPLength other)"
    using assms(1-3) lt Suc.prems by (auto simp: wellformed_def)
  have IH: "compare_from widen p other (i + 1) =
         Inr (first_nonzero (interleave (drop (nat (i + 1)) (count_differences widen p other))
                                        (drop (nat (i + 1)) (length_differences p other))))"
    using Suc.hyps(2) Suc.prems lt by (intro Suc.hyps(1)) linarith+
  have nat1: "nat (i + 1) = Suc ?k" using Suc.prems by simp
  have cd: "drop ?k (count_differences widen p other) =
      widen (borderSPCount p ! ?k - borderSPCount other ! ?k) # drop (Suc ?k) (count_differences widen p other)"
    unfolding count_differences_def using drop_zip_map_step[OF lens(1,2), of "\<lambda>(c, c'). widen (c - c')"] by simp
  have ld: "drop ?k (length_differences p other) =
      (borderSPLength p ! ?k - borderSPLength other ! ?k) # drop (Suc ?k) (length_differences p other)"
    unfolding length_differences_def using drop_zip_map_step[OF lens(3,4), of "\<lambda>(l, l'). l - l'"] by simp
  have va: "vec_at (borderSPCount p) i = Inr (borderSPCount p ! ?k)"
      "vec_at (borderSPCount other) i = Inr (borderSPCount other ! ?k)"
      "vec_at (borderSPLength p) i = Inr (borderSPLength p ! ?k)"
      "vec_at (borderSPLength other) i = Inr (borderSPLength other ! ?k)"
    using lens Suc.prems(1) by (simp_all add: vec_at_in_range)
  show ?case
    by (simp add: compare_from_step[OF lt] va IH nat1 cd ld)
qed

lemma compare_scan:
  fixes p other :: "('v::minus, 'w::{minus,zero}) VertexInfo"
  assumes "wellformed p" "wellformed other" "borderCount p = borderCount other"
  shows "compare widen p other = Inr (compare_index_first widen p other)"
  using compare_from_scan[OF assms, of 0 widen] assms(1)
  by (simp add: compare_def compare_index_first_def wellformed_def)

text \<open>
  Claim C1 as stated fails: with lengths \<open>[1, 0]\<close>, counts \<open>[0, 1]\<close> against lengths
  \<open>[0, 0]\<close>, counts \<open>[0, 2]\<close> the code returns the length difference \<open>1\<close> of index 0,
  not the count difference \<open>-1\<close> of index 1.
\<close>

theorem compare_counts_first_counterexample:
  "wellformed \<lparr>borderCount = 2, borderSPLength = [1, 0 :: int], borderSPCount = [0, 1 :: int]\<rparr>
   \<and> wellformed \<lparr>borderCount = 2, borderSPLength = [0, 0 :: int], borderSPCount = [0, 2 :: int]\<rparr>
   \<and> compare id \<lparr>borderCount = 2, borderSPLength = [1, 0 :: int], borderSPCount = [0, 1 :: int]\<rparr>
                 \<lparr>borderCount = 2, borderSPLength = [0, 0 :: int], borderSPCount = [0, 2 :: int]\<rparr>
       = Inr 1
   \<and> compare_counts_first id \<lparr>borderCount = 2, borderSPLength = [1, 0 :: int], borderSPCount = [0, 1 :: int]\<rparr>
                 \<lparr>borderCount = 2, borderSPLength = [0, 0 :: int], borderSPCount = [0, 2 :: int]\<rparr>
       = - 1"
  by (simp add: wellformed_def compare_def compare_from_step compare_from_done vec_at_def
      compare_counts_first_def count_differences_def length_differences_def)

text \<open>
  Claim C1 as amended: \<open>compare\<close> returns the first nonzero difference met index by
  index, at each index the count difference before the length difference, and 0
  when there is none.
\<close>

theorem compare_index_first_order:
  fixes p other :: "('v::minus, 'w::{minus,zero}) VertexInfo"
  assumes "wellformed p" and "wellformed other" and "borderCount p = borderCount other"
  shows "compare widen p other = Inr (compare_index_first widen p other)"
  using assms by (rule compare_scan)

theorem compare_index_first_order_witness:
  "wellformed \<lparr>borderCount = 2, borderSPLength = [1, 0 :: int], borderSPCount = [0, 1 :: int]\<rparr>
   \<and> wellformed \<lparr>borderCount = 2, borderSPLength = [0, 0 :: int], borderSPCount = [0, 2 :: int]\<rparr>
   \<and> compare id \<lparr>borderCount = 2, borderSPLength = [1, 0 :: int], borderSPCount = [0, 1 :: int]\<rparr>
                 \<lparr>borderCount = 2, borderSPLength = [0, 0 :: int], borderSPCount = [0, 2 :: int]\<rparr>
       = Inr (first_nonzero [0, 1, - 1, 0])"
proof -
  let ?p = "\<lparr>borderCount = 2, borderSPLength = [1, 0 :: int], borderSPCount = [0, 1 :: int]\<rparr>"
  let ?q = "\<lparr>borderCount = 2, borderSPLength = [0, 0 :: int], borderSPCount = [0, 2 :: int]\<rparr>"
  have wp: "wellformed ?p" and wq: "wellformed ?q" by (simp_all add: wellformed_def)
  have "compare id ?p ?q = Inr (compare_index_first id ?p ?q)"
    by (rule compare_index_first_order[OF wp wq]) simp
  then show ?thesis using wp wq
    by (simp add: compare_index_first_def count_differences_def length_differences_def)
qed





section \<open>Comparison on machine integers\<close>





lemma cint_cast_zero [simp]: "cint_cast 0 = 0"
  by (simp add: cint_cast_def zero_cint_def)




lemma compare_mixed_from_step:
  "i < borderCount p \<Longrightarrow> compare_mixed_from diffV diffW p other i =
        (case vec_at (borderSPCount p) i of Inl e \<Rightarrow> Inl e | Inr c \<Rightarrow>
        (case vec_at (borderSPCount other) i of Inl e \<Rightarrow> Inl e | Inr c' \<Rightarrow>
           if diffV c c' \<noteq> 0 then Inr (diffV c c')
           else
             (case vec_at (borderSPLength p) i of Inl e \<Rightarrow> Inl e | Inr l \<Rightarrow>
             (case vec_at (borderSPLength other) i of Inl e \<Rightarrow> Inl e | Inr l' \<Rightarrow>
                if diffW l l' \<noteq> 0 then Inr (diffW l l')
                else compare_mixed_from diffV diffW p other (i + 1)))))"
  by (subst compare_mixed_from.simps) simp

lemma compare_mixed_from_done:
  "\<not> i < borderCount p \<Longrightarrow> compare_mixed_from diffV diffW p other i = Inr 0"
  by (subst compare_mixed_from.simps) simp

text \<open>At one parameterisation the mixed comparison is \<open>compare\<close>.\<close>

lemma compare_mixed_same_parameterisation:
  "compare widen p other = compare_mixed (\<lambda>c c'. widen (c - c')) (\<lambda>l l'. l - l') p other"
proof -
  have "compare_from widen p other i
          = compare_mixed_from (\<lambda>c c'. widen (c - c')) (\<lambda>l l'. l - l') p other i" for i
  proof (induction "nat (borderCount p - i)" arbitrary: i)
    case 0
    then have "\<not> i < borderCount p" by simp
    then show ?case by (simp add: compare_from_done compare_mixed_from_done)
  next
    case (Suc k)
    then have lt: "i < borderCount p" by linarith
    have "compare_from widen p other (i + 1)
          = compare_mixed_from (\<lambda>c c'. widen (c - c')) (\<lambda>l l'. l - l') p other (i + 1)"
      using Suc.hyps(2) by (intro Suc.hyps(1)) linarith
    then show ?case
      by (simp add: compare_from_step[OF lt] compare_mixed_from_step[OF lt] split: sum.splits)
  qed
  then show ?thesis by (simp add: compare_def compare_mixed_def)
qed

lemma repr_zero [simp]: "repr 0 = 0"
  by (simp add: zero_cint_def)






section \<open>Squared distance and the elementwise operators\<close>

lemma for_loop_cong_range:
  assumes "\<And>j t. i \<le> j \<Longrightarrow> j < n \<Longrightarrow> body j t = body' j t"
  shows "for_loop i n body s = for_loop i n body' s"
  using assms
proof (induction "nat (n - i)" arbitrary: i s)
  case 0
  then have "\<not> i < n" by simp
  then show ?case by (simp add: for_loop_done)
next
  case (Suc k)
  then have lt: "i < n" by linarith
  have b: "body i s = body' i s" using Suc.prems lt by simp
  have "for_loop (i + 1) n body t = for_loop (i + 1) n body' t" for t
    using Suc.hyps(2) Suc.prems by (intro Suc.hyps(1)) simp_all
  then show ?case using lt b by (simp add: for_loop_step split: sum.splits)
qed

text \<open>The invariant rule for a body that may fail, with the errors it fails with.\<close>

lemma for_loop_invariant_or_error:
  assumes "I i s" and "i \<le> n"
    and "\<And>j t. i \<le> j \<Longrightarrow> j < n \<Longrightarrow> I j t \<Longrightarrow>
            (\<exists>t'. body j t = Inr t' \<and> I (j + 1) t') \<or> (\<exists>e. body j t = Inl e \<and> E e)"
  shows "(\<exists>t. for_loop i n body s = Inr t \<and> I n t) \<or> (\<exists>e. for_loop i n body s = Inl e \<and> E e)"
  using assms
proof (induction "nat (n - i)" arbitrary: i s)
  case 0
  then have "i = n" by simp
  with "0.prems"(1) show ?case by (simp add: for_loop_done)
next
  case (Suc k)
  then have lt: "i < n" by linarith
  from Suc.prems(3)[of i s] lt Suc.prems(1)
  consider t' where "body i s = Inr t'" "I (i + 1) t'" | e where "body i s = Inl e" "E e"
    by auto
  then show ?case
  proof cases
    case 1
    have "(\<exists>t. for_loop (i + 1) n body t' = Inr t \<and> I n t)
           \<or> (\<exists>e. for_loop (i + 1) n body t' = Inl e \<and> E e)"
    proof (rule Suc.hyps(1))
      show "k = nat (n - (i + 1))" using Suc.hyps(2) by linarith
      show "I (i + 1) t'" by (rule 1(2))
      show "i + 1 \<le> n" using lt by simp
      show "\<And>j t. i + 1 \<le> j \<Longrightarrow> j < n \<Longrightarrow> I j t \<Longrightarrow>
            (\<exists>t'. body j t = Inr t' \<and> I (j + 1) t') \<or> (\<exists>e. body j t = Inl e \<and> E e)"
        using Suc.prems(3) by simp
    qed
    then show ?thesis using lt 1(1) by (simp add: for_loop_step)
  next
    case 2
    then show ?thesis using lt by (simp add: for_loop_step)
  qed
qed

lemma squaredDistance_loop:
  fixes p :: "('v::minus, 'w::{minus,zero}) VertexInfo" and other :: "('n, 'e) VertexInfo"
  assumes "wellformed p" "wellformed other" "borderCount p \<le> borderCount other"
  shows "squaredDistance castW castV powW powV add_assign p other
           = Inr (squaredDistance_running castW castV powW powV add_assign p other)"
proof -
  let ?n = "borderCount p"
  let ?f = "\<lambda>sq i.
              add_assign
                (add_assign sq (powW (borderSPLength p ! i - castW (borderSPLength other ! i))))
                (powV (borderSPCount p ! i - castV (borderSPCount other ! i)))"
  let ?I = "\<lambda>i (sq :: 'w). sq = foldl ?f 0 [0..<nat i]"
  let ?body = "(\<lambda>i sqDistance.
          case vec_at (borderSPLength p) i of Inl e \<Rightarrow> Inl e | Inr l \<Rightarrow>
         (case vec_at (borderSPLength other) i of Inl e \<Rightarrow> Inl e | Inr l' \<Rightarrow>
         (case vec_at (borderSPCount p) i of Inl e \<Rightarrow> Inl e | Inr c \<Rightarrow>
         (case vec_at (borderSPCount other) i of Inl e \<Rightarrow> Inl e | Inr c' \<Rightarrow>
            Inr (add_assign (add_assign sqDistance (powW (l - castW l')))
                            (powV (c - castV c')))))))"
  have n0: "0 \<le> ?n" using assms(1) by (simp add: wellformed_def)
  have "\<exists>t. for_loop 0 ?n ?body 0 = Inr t \<and> ?I ?n t"
  proof (rule for_loop_invariant[where I = ?I])
    show "?I 0 0" by simp
    show "0 \<le> ?n" by (rule n0)
  next
    fix j t assume j: "0 \<le> j" "j < ?n" and I: "?I j t"
    have lens: "nat j < length (borderSPLength p)" "nat j < length (borderSPLength other)"
        "nat j < length (borderSPCount p)" "nat j < length (borderSPCount other)"
      using assms j by (auto simp: wellformed_def)
    have va: "vec_at (borderSPLength p) j = Inr (borderSPLength p ! nat j)"
        "vec_at (borderSPLength other) j = Inr (borderSPLength other ! nat j)"
        "vec_at (borderSPCount p) j = Inr (borderSPCount p ! nat j)"
        "vec_at (borderSPCount other) j = Inr (borderSPCount other ! nat j)"
      using lens j(1) by (simp_all add: vec_at_in_range)
    have up: "[0..<nat (j + 1)] = [0..<nat j] @ [nat j]" using j(1) by (simp add: nat_add_distrib)
    show "\<exists>t'. ?body j t = Inr t' \<and> ?I (j + 1) t'"
      using I by (simp add: va up)
  qed
  then show ?thesis by (simp add: squaredDistance_def squaredDistance_running_def)
qed



lemma vec_at_take:
  assumes "0 \<le> j" "j < n" "n \<le> int (length xs)"
  shows "vec_at (take (nat n) xs) j = vec_at xs j"
  using assms by (simp add: vec_at_def)

lemma squaredDistance_first_borders:
  fixes p :: "('v::minus, 'w::{minus,zero}) VertexInfo" and other :: "('n, 'e) VertexInfo"
  assumes "wellformed other" "borderCount p \<le> borderCount other"
  shows "squaredDistance castW castV powW powV add_assign p other
           = squaredDistance castW castV powW powV add_assign p (first_borders (borderCount p) other)"
  unfolding squaredDistance_def
proof (rule for_loop_cong_range)
  fix j and t :: 'w assume j: "0 \<le> j" "j < borderCount p"
  have "borderCount p \<le> int (length (borderSPLength other))"
       "borderCount p \<le> int (length (borderSPCount other))"
    using assms by (simp_all add: wellformed_def)
  then have e: "vec_at (borderSPLength (first_borders (borderCount p) other)) j = vec_at (borderSPLength other) j"
    "vec_at (borderSPCount (first_borders (borderCount p) other)) j = vec_at (borderSPCount other) j"
    using j by (simp_all add: first_borders_def vec_at_take)
  show "(case vec_at (borderSPLength p) j of Inl e \<Rightarrow> Inl e | Inr l \<Rightarrow>
         (case vec_at (borderSPLength other) j of Inl e \<Rightarrow> Inl e | Inr l' \<Rightarrow>
         (case vec_at (borderSPCount p) j of Inl e \<Rightarrow> Inl e | Inr c \<Rightarrow>
         (case vec_at (borderSPCount other) j of Inl e \<Rightarrow> Inl e | Inr c' \<Rightarrow>
            Inr (add_assign (add_assign t (powW (l - castW l')))
                            (powV (c - castV c'))))))) =
        (case vec_at (borderSPLength p) j of Inl e \<Rightarrow> Inl e | Inr l \<Rightarrow>
         (case vec_at (borderSPLength (first_borders (borderCount p) other)) j of Inl e \<Rightarrow> Inl e | Inr l' \<Rightarrow>
         (case vec_at (borderSPCount p) j of Inl e \<Rightarrow> Inl e | Inr c \<Rightarrow>
         (case vec_at (borderSPCount (first_borders (borderCount p) other)) j of Inl e \<Rightarrow> Inl e | Inr c' \<Rightarrow>
            Inr (add_assign (add_assign t (powW (l - castW l')))
                            (powV (c - castV c')))))))"
    unfolding e by (rule refl)
qed

lemma zip_take_snoc:
  assumes "k < length xs" "k < length ys"
  shows "zip (take (Suc k) xs) (take (Suc k) ys) = zip (take k xs) (take k ys) @ [(xs ! k, ys ! k)]"
  using assms by (simp add: take_Suc_conv_app_nth)

lemma elementwise_assign_total:
  fixes p :: "('v, 'w) VertexInfo" and other :: "('n, 'e) VertexInfo"
  assumes "wellformed p" "wellformed other" "borderCount p \<le> borderCount other"
  shows "elementwise_assign (\<lambda>l l'. Inr (opl l l')) (\<lambda>c c'. Inr (opc c c')) p other
           = Inr (pointwise opl opc p other)"
proof -
  let ?n = "borderCount p"
  let ?lp = "borderSPLength p" and ?lo = "borderSPLength other"
  let ?cp = "borderSPCount p" and ?co = "borderSPCount other"
  let ?L = "\<lambda>k. map (\<lambda>(l, l'). opl l l') (zip (take k ?lp) (take k ?lo)) @ drop k ?lp"
  let ?C = "\<lambda>k. map (\<lambda>(c, c'). opc c c') (zip (take k ?cp) (take k ?co)) @ drop k ?cp"
  let ?I = "\<lambda>i t. t = p\<lparr>borderSPLength := ?L (nat i), borderSPCount := ?C (nat i)\<rparr>"
  let ?body = "(\<lambda>i p.
          case vec_at (borderSPLength p) i of Inl e \<Rightarrow> Inl e | Inr l \<Rightarrow>
         (case vec_at (borderSPLength other) i of Inl e \<Rightarrow> Inl e | Inr l' \<Rightarrow>
         (case Inr (opl l l') of Inl e \<Rightarrow> Inl e | Inr l'' \<Rightarrow>
         (case vec_set (borderSPLength p) i l'' of Inl e \<Rightarrow> Inl e | Inr ls \<Rightarrow>
         (case vec_at (borderSPCount p) i of Inl e \<Rightarrow> Inl e | Inr c \<Rightarrow>
         (case vec_at (borderSPCount other) i of Inl e \<Rightarrow> Inl e | Inr c' \<Rightarrow>
         (case Inr (opc c c') of Inl e \<Rightarrow> Inl e | Inr c'' \<Rightarrow>
         (case vec_set (borderSPCount p) i c'' of Inl e \<Rightarrow> Inl e | Inr cs \<Rightarrow>
            Inr (p\<lparr>borderSPLength := ls, borderSPCount := cs\<rparr>)))))))))"
  have n0: "0 \<le> ?n" using assms(1) by (simp add: wellformed_def)
  have lp: "length ?lp = nat ?n" and cp: "length ?cp = nat ?n"
    using assms(1) by (auto simp: wellformed_def)
  have "\<exists>t. for_loop 0 ?n ?body p = Inr t \<and> ?I ?n t"
  proof (rule for_loop_invariant[where I = ?I])
    show "?I 0 p" by simp
    show "0 \<le> ?n" by (rule n0)
  next
    fix j t assume j: "0 \<le> j" "j < ?n" and I: "?I j t"
    let ?k = "nat j"
    have lens: "?k < length ?lp" "?k < length ?lo" "?k < length ?cp" "?k < length ?co"
      using assms j by (auto simp: wellformed_def)
    have lenL: "length (?L ?k) = length ?lp" and lenC: "length (?C ?k) = length ?cp"
      using lens by simp_all
    have Lk: "?L ?k ! ?k = ?lp ! ?k" and Ck: "?C ?k ! ?k = ?cp ! ?k"
      using lens by (simp_all add: nth_append)
    have va: "vec_at ?lo j = Inr (?lo ! ?k)" "vec_at ?co j = Inr (?co ! ?k)"
      "vec_at (?L ?k) j = Inr (?lp ! ?k)" "vec_at (?C ?k) j = Inr (?cp ! ?k)"
      using lens j(1) lenL lenC Lk Ck by (simp_all add: vec_at_in_range)
    have vs: "\<And>x. vec_set (?L ?k) j x = Inr ((?L ?k)[?k := x])"
       "\<And>x. vec_set (?C ?k) j x = Inr ((?C ?k)[?k := x])"
      unfolding vec_set_def using lenL lenC lens(1,3) j(1) by (simp_all add: nat_less_iff)
    have stepL: "(?L ?k)[?k := opl (?lp ! ?k) (?lo ! ?k)] = ?L (Suc ?k)"
      using lens(1,2)
      by (simp add: zip_take_snoc list_update_append nth_append min_def
          Cons_nth_drop_Suc[symmetric])
    have stepC: "(?C ?k)[?k := opc (?cp ! ?k) (?co ! ?k)] = ?C (Suc ?k)"
      using lens(3,4)
      by (simp add: zip_take_snoc list_update_append nth_append min_def
          Cons_nth_drop_Suc[symmetric])
    have nat1: "nat (j + 1) = Suc ?k" using j(1) by simp
    show "\<exists>t'. ?body j t = Inr t' \<and> ?I (j + 1) t'"
      unfolding I nat1 by (simp add: va vs stepL stepC del: take_Suc_conv_app_nth)
  qed
  then show ?thesis using lp cp by (simp add: elementwise_assign_def pointwise_def)
qed

lemma elementwise_assign_first_borders:
  fixes p :: "('v, 'w) VertexInfo" and other :: "('n, 'e) VertexInfo"
  assumes "wellformed other" "borderCount p \<le> borderCount other"
  shows "elementwise_assign opW opV p other
           = elementwise_assign opW opV p (first_borders (borderCount p) other)"
  unfolding elementwise_assign_def
proof (rule for_loop_cong_range)
  fix j and t :: "('v, 'w) VertexInfo" assume j: "0 \<le> j" "j < borderCount p"
  have "borderCount p \<le> int (length (borderSPLength other))"
       "borderCount p \<le> int (length (borderSPCount other))"
    using assms by (simp_all add: wellformed_def)
  then have e: "vec_at (borderSPLength (first_borders (borderCount p) other)) j = vec_at (borderSPLength other) j"
    "vec_at (borderSPCount (first_borders (borderCount p) other)) j = vec_at (borderSPCount other) j"
    using j by (simp_all add: first_borders_def vec_at_take)
  show "(case vec_at (borderSPLength t) j of Inl e \<Rightarrow> Inl e | Inr l \<Rightarrow>
         (case vec_at (borderSPLength other) j of Inl e \<Rightarrow> Inl e | Inr l' \<Rightarrow>
         (case opW l l' of Inl e \<Rightarrow> Inl e | Inr l'' \<Rightarrow>
         (case vec_set (borderSPLength t) j l'' of Inl e \<Rightarrow> Inl e | Inr ls \<Rightarrow>
         (case vec_at (borderSPCount t) j of Inl e \<Rightarrow> Inl e | Inr c \<Rightarrow>
         (case vec_at (borderSPCount other) j of Inl e \<Rightarrow> Inl e | Inr c' \<Rightarrow>
         (case opV c c' of Inl e \<Rightarrow> Inl e | Inr c'' \<Rightarrow>
         (case vec_set (borderSPCount t) j c'' of Inl e \<Rightarrow> Inl e | Inr cs \<Rightarrow>
            Inr (t\<lparr>borderSPLength := ls, borderSPCount := cs\<rparr>))))))))) =
        (case vec_at (borderSPLength t) j of Inl e \<Rightarrow> Inl e | Inr l \<Rightarrow>
         (case vec_at (borderSPLength (first_borders (borderCount p) other)) j of Inl e \<Rightarrow> Inl e | Inr l' \<Rightarrow>
         (case opW l l' of Inl e \<Rightarrow> Inl e | Inr l'' \<Rightarrow>
         (case vec_set (borderSPLength t) j l'' of Inl e \<Rightarrow> Inl e | Inr ls \<Rightarrow>
         (case vec_at (borderSPCount t) j of Inl e \<Rightarrow> Inl e | Inr c \<Rightarrow>
         (case vec_at (borderSPCount (first_borders (borderCount p) other)) j of Inl e \<Rightarrow> Inl e | Inr c' \<Rightarrow>
         (case opV c c' of Inl e \<Rightarrow> Inl e | Inr c'' \<Rightarrow>
         (case vec_set (borderSPCount t) j c'' of Inl e \<Rightarrow> Inl e | Inr cs \<Rightarrow>
            Inr (t\<lparr>borderSPLength := ls, borderSPCount := cs\<rparr>)))))))))"
    unfolding e by (rule refl)
qed

lemma native_quotient_defined:
  "dv x y \<noteq> None \<Longrightarrow> native_quotient dv x y = Inr (defined_quotient dv x y)"
  by (auto simp: native_quotient_def defined_quotient_def)

lemma native_quotient_undefined:
  "dv x y = None \<Longrightarrow> native_quotient dv x y = Inl UndefinedDivision"
  by (simp add: native_quotient_def)

lemma op_divide_assign_outcome:
  fixes p :: "('v, 'w) VertexInfo" and other :: "('n, 'e) VertexInfo"
  assumes "wellformed p" "wellformed other" "borderCount p \<le> borderCount other"
  shows "op_divide_assign divW divV p other =
           (if quotients_defined divW divV p other
            then Inr (pointwise (defined_quotient divW) (defined_quotient divV) p other)
            else Inl UndefinedDivision)"
proof -
  let ?n = "borderCount p"
  let ?lp = "borderSPLength p" and ?lo = "borderSPLength other"
  let ?cp = "borderSPCount p" and ?co = "borderSPCount other"
  let ?qW = "defined_quotient divW" and ?qV = "defined_quotient divV"
  let ?L = "\<lambda>k. map (\<lambda>(l, l'). ?qW l l') (zip (take k ?lp) (take k ?lo)) @ drop k ?lp"
  let ?C = "\<lambda>k. map (\<lambda>(c, c'). ?qV c c') (zip (take k ?cp) (take k ?co)) @ drop k ?cp"
  let ?D = "\<lambda>i. divW (?lp ! i) (?lo ! i) \<noteq> None \<and> divV (?cp ! i) (?co ! i) \<noteq> None"
  let ?I = "\<lambda>i t. t = p\<lparr>borderSPLength := ?L (nat i), borderSPCount := ?C (nat i)\<rparr>
               \<and> (\<forall>k < nat i. ?D k)"
  let ?E = "\<lambda>e. e = UndefinedDivision \<and> \<not> quotients_defined divW divV p other"
  let ?body = "(\<lambda>i p.
          case vec_at (borderSPLength p) i of Inl e \<Rightarrow> Inl e | Inr l \<Rightarrow>
         (case vec_at (borderSPLength other) i of Inl e \<Rightarrow> Inl e | Inr l' \<Rightarrow>
         (case native_quotient divW l l' of Inl e \<Rightarrow> Inl e | Inr l'' \<Rightarrow>
         (case vec_set (borderSPLength p) i l'' of Inl e \<Rightarrow> Inl e | Inr ls \<Rightarrow>
         (case vec_at (borderSPCount p) i of Inl e \<Rightarrow> Inl e | Inr c \<Rightarrow>
         (case vec_at (borderSPCount other) i of Inl e \<Rightarrow> Inl e | Inr c' \<Rightarrow>
         (case native_quotient divV c c' of Inl e \<Rightarrow> Inl e | Inr c'' \<Rightarrow>
         (case vec_set (borderSPCount p) i c'' of Inl e \<Rightarrow> Inl e | Inr cs \<Rightarrow>
            Inr (p\<lparr>borderSPLength := ls, borderSPCount := cs\<rparr>)))))))))"
  have n0: "0 \<le> ?n" using assms(1) by (simp add: wellformed_def)
  have lp: "length ?lp = nat ?n" and cp: "length ?cp = nat ?n"
    using assms(1) by (auto simp: wellformed_def)
  have loop: "(\<exists>t. for_loop 0 ?n ?body p = Inr t \<and> ?I ?n t)
        \<or> (\<exists>e. for_loop 0 ?n ?body p = Inl e \<and> ?E e)"
  proof (rule for_loop_invariant_or_error[where I = ?I and E = ?E])
    show "?I 0 p" by simp
    show "0 \<le> ?n" by (rule n0)
  next
    fix j t assume j: "0 \<le> j" "j < ?n" and I: "?I j t"
    let ?k = "nat j"
    have t: "t = p\<lparr>borderSPLength := ?L ?k, borderSPCount := ?C ?k\<rparr>" using I by (rule conjunct1)
    have Dk: "\<forall>k < ?k. ?D k" using I by (rule conjunct2)
    have kn: "?k < nat ?n" using j by simp
    have lens: "?k < length ?lp" "?k < length ?lo" "?k < length ?cp" "?k < length ?co"
      using assms j by (auto simp: wellformed_def)
    have lenL: "length (?L ?k) = length ?lp" and lenC: "length (?C ?k) = length ?cp"
      using lens by simp_all
    have Lk: "?L ?k ! ?k = ?lp ! ?k" and Ck: "?C ?k ! ?k = ?cp ! ?k"
      using lens by (simp_all add: nth_append)
    have va: "vec_at ?lo j = Inr (?lo ! ?k)" "vec_at ?co j = Inr (?co ! ?k)"
      "vec_at (?L ?k) j = Inr (?lp ! ?k)" "vec_at (?C ?k) j = Inr (?cp ! ?k)"
      using lens j(1) lenL lenC Lk Ck by (simp_all add: vec_at_in_range)
    have vs: "\<And>x. vec_set (?L ?k) j x = Inr ((?L ?k)[?k := x])"
       "\<And>x. vec_set (?C ?k) j x = Inr ((?C ?k)[?k := x])"
      unfolding vec_set_def using lenL lenC lens(1,3) j(1) by (simp_all add: nat_less_iff)
    have stepL: "(?L ?k)[?k := ?qW (?lp ! ?k) (?lo ! ?k)] = ?L (Suc ?k)"
      using lens(1,2)
      by (simp add: zip_take_snoc list_update_append nth_append min_def
          Cons_nth_drop_Suc[symmetric])
    have stepC: "(?C ?k)[?k := ?qV (?cp ! ?k) (?co ! ?k)] = ?C (Suc ?k)"
      using lens(3,4)
      by (simp add: zip_take_snoc list_update_append nth_append min_def
          Cons_nth_drop_Suc[symmetric])
    have nat1: "nat (j + 1) = Suc ?k" using j(1) by simp
    show "(\<exists>t'. ?body j t = Inr t' \<and> ?I (j + 1) t') \<or> (\<exists>e. ?body j t = Inl e \<and> ?E e)"
    proof (cases "?D ?k")
      case True
      then have q: "native_quotient divW (?lp ! ?k) (?lo ! ?k) = Inr (?qW (?lp ! ?k) (?lo ! ?k))"
         "native_quotient divV (?cp ! ?k) (?co ! ?k) = Inr (?qV (?cp ! ?k) (?co ! ?k))"
        by (simp_all add: native_quotient_defined)
      have "\<forall>k < Suc ?k. ?D k" using Dk True by (simp add: less_Suc_eq)
      then have "\<exists>t'. ?body j t = Inr t' \<and> ?I (j + 1) t'"
        unfolding t nat1 by (simp add: va vs q stepL stepC del: take_Suc_conv_app_nth)
      then show ?thesis by (rule disjI1)
    next
      case False
      then have nd: "\<not> quotients_defined divW divV p other"
        unfolding quotients_defined_def using kn by blast
      have "?body j t = Inl UndefinedDivision"
      proof (cases "divW (?lp ! ?k) (?lo ! ?k) = None")
        case True
        then have "native_quotient divW (?lp ! ?k) (?lo ! ?k) = Inl UndefinedDivision"
          by (rule native_quotient_undefined)
        then show ?thesis unfolding t by (simp add: va)
      next
        case dW: False
        then have qW: "native_quotient divW (?lp ! ?k) (?lo ! ?k) = Inr (?qW (?lp ! ?k) (?lo ! ?k))"
          by (rule native_quotient_defined)
        have "divV (?cp ! ?k) (?co ! ?k) = None" using False dW by simp
        then have "native_quotient divV (?cp ! ?k) (?co ! ?k) = Inl UndefinedDivision"
          by (rule native_quotient_undefined)
        then show ?thesis unfolding t by (simp add: va vs qW)
      qed
      then have "\<exists>e. ?body j t = Inl e \<and> ?E e" using nd by simp
      then show ?thesis by (rule disjI2)
    qed
  qed
  show ?thesis
  proof (cases "quotients_defined divW divV p other")
    case True
    with loop have "\<exists>t. for_loop 0 ?n ?body p = Inr t \<and> ?I ?n t" by blast
    then show ?thesis using True lp cp
      by (simp add: op_divide_assign_def elementwise_assign_def pointwise_def)
  next
    case False
    have "\<not> (\<exists>t. for_loop 0 ?n ?body p = Inr t \<and> ?I ?n t)"
      using False unfolding quotients_defined_def by blast
    with loop have "for_loop 0 ?n ?body p = Inl UndefinedDivision" by blast
    then show ?thesis using False
      by (simp add: op_divide_assign_def elementwise_assign_def)
  qed
qed




text \<open>
  Claim C9: against an other profile at least as wide, every elementwise operator and
  \<open>squaredDistance\<close> visit the indices below \<open>borders p\<close> only: the result is the same
  against the other cut down to its first \<open>borders p\<close> borders. \<^verbatim>\<open>+=\<close>, \<^verbatim>\<open>-=\<close>, \<^verbatim>\<open>*=\<close>,
  \<^verbatim>\<open>+\<close>, \<^verbatim>\<open>-\<close>, \<^verbatim>\<open>*\<close>, and the loop at any operator that always has a result, return
  the index-wise result without an error; \<^verbatim>\<open>/=\<close> and \<^verbatim>\<open>/\<close> return the index-wise
  quotients where each visited index has one, and otherwise fail with the undefined
  division, never with a shape error; \<open>squaredDistance\<close> returns its running sum. The
  width stays as it was.
\<close>

theorem elementwise_no_shape_check:
  fixes p other :: "('v::{plus,minus,times}, 'w::{plus,minus,times,zero}) VertexInfo"
    and q :: "('n, 'e) VertexInfo"
  assumes "wellformed p" and "wellformed other" and "wellformed q"
    and "borders p \<le> borders other" and "borders p \<le> borders q"
  shows "op_plus_assign p other = Inr (pointwise (+) (+) p other)
       \<and> op_minus_assign p other = Inr (pointwise (-) (-) p other)
       \<and> op_times_assign p other = Inr (pointwise (*) (*) p other)
       \<and> op_plus p other = Inr (pointwise (+) (+) p other)
       \<and> op_minus p other = Inr (pointwise (-) (-) p other)
       \<and> op_times p other = Inr (pointwise (*) (*) p other)
       \<and> elementwise_assign (\<lambda>l l'. Inr (opl l l')) (\<lambda>c c'. Inr (opc c c')) p q
            = Inr (pointwise opl opc p q)
       \<and> op_divide_assign divW divV p q =
            (if quotients_defined divW divV p q
             then Inr (pointwise (defined_quotient divW) (defined_quotient divV) p q)
             else Inl UndefinedDivision)
       \<and> op_divide divW divV p q = op_divide_assign divW divV p q
       \<and> squaredDistance castW castV powW powV add_assign p q
            = Inr (squaredDistance_running castW castV powW powV add_assign p q)
       \<and> elementwise_assign opW opV p q = elementwise_assign opW opV p (first_borders (borders p) q)
       \<and> squaredDistance castW castV powW powV add_assign p q
            = squaredDistance castW castV powW powV add_assign p (first_borders (borders p) q)
       \<and> borders (pointwise opl opc p q) = borders p"
proof -
  have le: "borderCount p \<le> borderCount other" and le': "borderCount p \<le> borderCount q"
    using assms(4,5) by (simp_all add: borders_def)
  have el: "\<And>f h. elementwise_assign (\<lambda>l l'. Inr (f l l')) (\<lambda>c c'. Inr (h c c')) p other
                    = Inr (pointwise f h p other)"
    using assms(1,2) le by (rule elementwise_assign_total)
  have el': "elementwise_assign (\<lambda>l l'. Inr (opl l l')) (\<lambda>c c'. Inr (opc c c')) p q
                    = Inr (pointwise opl opc p q)"
    using assms(1,3) le' by (rule elementwise_assign_total)
  have dv: "op_divide_assign divW divV p q =
            (if quotients_defined divW divV p q
             then Inr (pointwise (defined_quotient divW) (defined_quotient divV) p q)
             else Inl UndefinedDivision)"
    using assms(1,3) le' by (rule op_divide_assign_outcome)
  have dv': "op_divide divW divV p q = op_divide_assign divW divV p q"
    by (simp add: op_divide_def)
  have sq: "squaredDistance castW castV powW powV add_assign p q
            = Inr (squaredDistance_running castW castV powW powV add_assign p q)"
    using assms(1,3) le' by (rule squaredDistance_loop)
  have fb: "elementwise_assign opW opV p q = elementwise_assign opW opV p (first_borders (borders p) q)"
    unfolding borders_def using assms(3) le' by (rule elementwise_assign_first_borders)
  have fs: "squaredDistance castW castV powW powV add_assign p q
            = squaredDistance castW castV powW powV add_assign p (first_borders (borders p) q)"
    unfolding borders_def using assms(3) le' by (rule squaredDistance_first_borders)
  have b: "borders (pointwise opl opc p q) = borders p"
    by (simp add: borders_def pointwise_def)
  have ops: "op_plus_assign p other = Inr (pointwise (+) (+) p other)"
    "op_minus_assign p other = Inr (pointwise (-) (-) p other)"
    "op_times_assign p other = Inr (pointwise (*) (*) p other)"
    "op_plus p other = Inr (pointwise (+) (+) p other)"
    "op_minus p other = Inr (pointwise (-) (-) p other)"
    "op_times p other = Inr (pointwise (*) (*) p other)"
    by (simp_all add: op_plus_assign_def op_minus_assign_def op_times_assign_def
        op_plus_def op_minus_def op_times_def el)
  show ?thesis
    by (intro conjI ops el' dv dv' sq fb fs b)
qed

theorem elementwise_no_shape_check_witness:
  "wellformed \<lparr>borderCount = 1, borderSPLength = [CInt 6 :: 32 cint], borderSPCount = [CInt 2 :: 32 cint]\<rparr>
   \<and> wellformed \<lparr>borderCount = 2, borderSPLength = [CInt 3, CInt 100 :: 32 cint], borderSPCount = [CInt 0, CInt 100 :: 32 cint]\<rparr>
   \<and> wellformed \<lparr>borderCount = 2, borderSPLength = [CInt 4, CInt 0 :: 32 cint], borderSPCount = [CInt (- 2), CInt 0 :: 32 cint]\<rparr>
   \<and> op_plus_assign
        \<lparr>borderCount = 1, borderSPLength = [CInt 6 :: 32 cint], borderSPCount = [CInt 2 :: 32 cint]\<rparr>
        \<lparr>borderCount = 2, borderSPLength = [CInt 3, CInt 100 :: 32 cint], borderSPCount = [CInt 0, CInt 100 :: 32 cint]\<rparr>
      = Inr \<lparr>borderCount = 1, borderSPLength = [CInt 9], borderSPCount = [CInt 2]\<rparr>
   \<and> op_minus
        \<lparr>borderCount = 1, borderSPLength = [CInt 6 :: 32 cint], borderSPCount = [CInt 2 :: 32 cint]\<rparr>
        \<lparr>borderCount = 2, borderSPLength = [CInt 3, CInt 100 :: 32 cint], borderSPCount = [CInt 0, CInt 100 :: 32 cint]\<rparr>
      = Inr \<lparr>borderCount = 1, borderSPLength = [CInt 3], borderSPCount = [CInt 2]\<rparr>
   \<and> op_divide_assign cint_quotient cint_quotient
        \<lparr>borderCount = 1, borderSPLength = [CInt 6 :: 32 cint], borderSPCount = [CInt 2 :: 32 cint]\<rparr>
        \<lparr>borderCount = 2, borderSPLength = [CInt 3, CInt 100 :: 32 cint], borderSPCount = [CInt 0, CInt 100 :: 32 cint]\<rparr>
      = Inl UndefinedDivision
   \<and> op_divide cint_quotient cint_quotient
        \<lparr>borderCount = 1, borderSPLength = [CInt 6 :: 32 cint], borderSPCount = [CInt 2 :: 32 cint]\<rparr>
        \<lparr>borderCount = 2, borderSPLength = [CInt 4, CInt 0 :: 32 cint], borderSPCount = [CInt (- 2), CInt 0 :: 32 cint]\<rparr>
      = Inr \<lparr>borderCount = 1, borderSPLength = [CInt 1], borderSPCount = [CInt (- 1)]\<rparr>
   \<and> squaredDistance id id pow2_int pow2_int add_assign_int
        \<lparr>borderCount = 1, borderSPLength = [CInt 6 :: 32 cint], borderSPCount = [CInt 2 :: 32 cint]\<rparr>
        \<lparr>borderCount = 2, borderSPLength = [CInt 4, CInt 0 :: 32 cint], borderSPCount = [CInt (- 2), CInt 0 :: 32 cint]\<rparr>
      = Inr (CInt 20)"
proof -
  let ?p = "\<lparr>borderCount = 1, borderSPLength = [CInt 6 :: 32 cint], borderSPCount = [CInt 2 :: 32 cint]\<rparr>"
  let ?o = "\<lparr>borderCount = 2, borderSPLength = [CInt 3, CInt 100 :: 32 cint], borderSPCount = [CInt 0, CInt 100 :: 32 cint]\<rparr>"
  let ?q = "\<lparr>borderCount = 2, borderSPLength = [CInt 4, CInt 0 :: 32 cint], borderSPCount = [CInt (- 2), CInt 0 :: 32 cint]\<rparr>"
  have wp: "wellformed ?p" and wo: "wellformed ?o" and wq: "wellformed ?q"
    by (simp_all add: wellformed_def)
  have le: "borders ?p \<le> borders ?o" "borders ?p \<le> borders ?q" by (simp_all add: borders_def)
  have pw: "pointwise (+) (+) ?p ?o = \<lparr>borderCount = 1, borderSPLength = [CInt 9], borderSPCount = [CInt 2]\<rparr>"
      "pointwise (-) (-) ?p ?o = \<lparr>borderCount = 1, borderSPLength = [CInt 3], borderSPCount = [CInt 2]\<rparr>"
    by (simp_all add: pointwise_def)
  have qd: "\<not> quotients_defined cint_quotient cint_quotient ?p ?o"
    "quotients_defined cint_quotient cint_quotient ?p ?q"
    by (simp_all add: quotients_defined_def cint_quotient_def)
  have dq: "pointwise (defined_quotient cint_quotient) (defined_quotient cint_quotient) ?p ?q
       = \<lparr>borderCount = 1, borderSPLength = [CInt 1], borderSPCount = [CInt (- 1)]\<rparr>"
    by (simp add: pointwise_def defined_quotient_def cint_quotient_def)
  have sq: "squaredDistance_running id id pow2_int pow2_int add_assign_int ?p ?q = CInt 20"
    by (simp add: squaredDistance_running_def pow2_int_def add_assign_int_def cint_of_double_def
        double_of_cint_def truncate_to_int_def)
  note A = elementwise_no_shape_check[OF wp wo wo le(1) le(1),
      where divW = cint_quotient and divV = cint_quotient]
  note B = elementwise_no_shape_check[OF wp wo wq le,
      where divW = cint_quotient and divV = cint_quotient and castW = id and castV = id
        and powW = pow2_int and powV = pow2_int and add_assign = add_assign_int]
  have a1: "op_plus_assign ?p ?o = Inr (pointwise (+) (+) ?p ?o)"
    by (rule A[THEN conjunct1])
  have a5: "op_minus ?p ?o = Inr (pointwise (-) (-) ?p ?o)"
    by (rule A[THEN conjunct2, THEN conjunct2, THEN conjunct2, THEN conjunct2, THEN conjunct1])
  have a8: "op_divide_assign cint_quotient cint_quotient ?p ?o =
            (if quotients_defined cint_quotient cint_quotient ?p ?o
             then Inr (pointwise (defined_quotient cint_quotient) (defined_quotient cint_quotient) ?p ?o)
             else Inl UndefinedDivision)"
    by (rule A[THEN conjunct2, THEN conjunct2, THEN conjunct2, THEN conjunct2, THEN conjunct2, THEN conjunct2, THEN conjunct2, THEN conjunct1])
  have b8: "op_divide_assign cint_quotient cint_quotient ?p ?q =
            (if quotients_defined cint_quotient cint_quotient ?p ?q
             then Inr (pointwise (defined_quotient cint_quotient) (defined_quotient cint_quotient) ?p ?q)
             else Inl UndefinedDivision)"
    by (rule B[THEN conjunct2, THEN conjunct2, THEN conjunct2, THEN conjunct2, THEN conjunct2, THEN conjunct2, THEN conjunct2, THEN conjunct1])
  have b9: "op_divide cint_quotient cint_quotient ?p ?q
              = op_divide_assign cint_quotient cint_quotient ?p ?q"
    by (rule B[THEN conjunct2, THEN conjunct2, THEN conjunct2, THEN conjunct2, THEN conjunct2, THEN conjunct2, THEN conjunct2, THEN conjunct2, THEN conjunct1])
  have b10: "squaredDistance id id pow2_int pow2_int add_assign_int ?p ?q
            = Inr (squaredDistance_running id id pow2_int pow2_int add_assign_int ?p ?q)"
    by (rule B[THEN conjunct2, THEN conjunct2, THEN conjunct2, THEN conjunct2, THEN conjunct2, THEN conjunct2, THEN conjunct2, THEN conjunct2, THEN conjunct2, THEN conjunct1])
  show ?thesis
    unfolding a1 a5 a8 b9 b8 b10 pw dq sq using qd wp wo wq by simp
qed

section \<open>Selection of the winner\<close>

lemma select_best_scan:
  fixes modularities :: "'m::linorder list"
  assumes "1 \<le> parallelism" and "int (length modularities) = parallelism"
  shows "\<exists>b. select_best modularities parallelism = Inr b \<and> 0 \<le> b \<and> b < parallelism
           \<and> (\<forall>k < nat parallelism. modularities ! k \<le> modularities ! nat b)
           \<and> (\<forall>k < nat b. modularities ! k < modularities ! nat b)"
proof -
  let ?ms = modularities
  let ?I = "\<lambda>i b. 0 \<le> b \<and> b < i \<and> (\<forall>k < nat i. ?ms ! k \<le> ?ms ! nat b)
                  \<and> (\<forall>k < nat b. ?ms ! k < ?ms ! nat b)"
  let ?body = "(\<lambda>i best_i.
          case vec_at ?ms i of Inl e \<Rightarrow> Inl e | Inr mi \<Rightarrow>
         (case vec_at ?ms best_i of Inl e \<Rightarrow> Inl e | Inr mb \<Rightarrow>
            Inr (if mi > mb then i else best_i)))"
  have "\<exists>t. for_loop 1 parallelism ?body 0 = Inr t \<and> ?I parallelism t"
  proof (rule for_loop_invariant)
    show "?I 1 0" by simp
    show "1 \<le> parallelism" by (rule assms(1))
  next
    fix j t assume j: "1 \<le> j" "j < parallelism" and I: "?I j t"
    have va: "vec_at ?ms j = Inr (?ms ! nat j)" "vec_at ?ms t = Inr (?ms ! nat t)"
      using j I assms(2) by (simp_all add: vec_at_def)
    have nat1: "nat (j + 1) = Suc (nat j)" using j(1) by simp
    show "\<exists>t'. ?body j t = Inr t' \<and> ?I (j + 1) t'"
    proof (cases "?ms ! nat j > ?ms ! nat t")
      case True
      have "\<forall>k < Suc (nat j). ?ms ! k \<le> ?ms ! nat j"
        using I True by (auto simp: less_Suc_eq intro: order.trans less_imp_le)
      moreover have "\<forall>k < nat j. ?ms ! k < ?ms ! nat j"
        using I True by (auto intro: le_less_trans)
      ultimately show ?thesis using True j by (simp add: va nat1)
    next
      case False
      then have "\<forall>k < Suc (nat j). ?ms ! k \<le> ?ms ! nat t"
        using I by (auto simp: less_Suc_eq)
      then show ?thesis using False I j by (simp add: va nat1)
    qed
  qed
  then show ?thesis by (simp add: select_best_def)
qed

lemma level_body_winner:
  fixes run :: "int \<Rightarrow> int \<Rightarrow> 'g \<Rightarrow> ('g, 'm::linorder) Partition"
  assumes "1 \<le> parallelism"
  shows "\<exists>b. select_best (map modularity (attempts run parallelism st)) parallelism = Inr b
           \<and> 0 \<le> b \<and> b < parallelism
           \<and> level_body run parallelism st =
               (case renumber_communities (comms st) (n2c (run (level st) b (g st))) of
                  Inl e \<Rightarrow> Inl e
                | Inr comms' \<Rightarrow>
                    Inr (one_level (run (level st) b (g st)),
                         \<lparr>g = partition2graph (run (level st) b (g st)), comms = comms',
                          level = level st + 1\<rparr>))"
proof -
  let ?p = "attempts run parallelism st"
  have len: "int (length (map modularity ?p)) = parallelism"
    using assms by (simp add: attempts_def)
  from select_best_scan[OF assms len]
  obtain b where b: "select_best (map modularity ?p) parallelism = Inr b" "0 \<le> b" "b < parallelism"
    by blast
  have nb: "nat b < nat parallelism" using b by linarith
  have pb: "?p ! nat b = run (level st) b (g st)"
    using nb b(2) by (simp add: attempts_def)
  have va: "vec_at (map one_level ?p) b = Inr (one_level (run (level st) b (g st)))"
      "vec_at ?p b = Inr (run (level st) b (g st))"
    using b nb pb by (simp_all add: vec_at_def attempts_def)
  show ?thesis
    using b va by (simp add: level_body_def Let_def)
qed

text \<open>
  Claim C5: with at least one attempt, the scan ends at an attempt whose modularity no
  other attempt exceeds and which every earlier attempt is strictly below (the lowest
  index among the maximal ones); the loop body takes its flag, its graph and its
  communities from that attempt.
\<close>

theorem winner_is_first_maximum:
  fixes run :: "int \<Rightarrow> int \<Rightarrow> 'g \<Rightarrow> ('g, 'm::linorder) Partition"
  assumes "1 \<le> parallelism"
  shows "\<exists>b. select_best (map modularity (attempts run parallelism st)) parallelism = Inr b
           \<and> 0 \<le> b \<and> b < parallelism
           \<and> (\<forall>i. 0 \<le> i \<and> i < parallelism \<longrightarrow>
                  modularity (run (level st) i (g st)) \<le> modularity (run (level st) b (g st)))
           \<and> (\<forall>i. 0 \<le> i \<and> i < b \<longrightarrow>
                  modularity (run (level st) i (g st)) < modularity (run (level st) b (g st)))
           \<and> level_body run parallelism st =
               (case renumber_communities (comms st) (n2c (run (level st) b (g st))) of
                  Inl e \<Rightarrow> Inl e
                | Inr comms' \<Rightarrow>
                    Inr (one_level (run (level st) b (g st)),
                         \<lparr>g = partition2graph (run (level st) b (g st)), comms = comms',
                          level = level st + 1\<rparr>))"
proof -
  let ?p = "attempts run parallelism st"
  let ?ms = "map modularity ?p"
  have len: "int (length ?ms) = parallelism" using assms by (simp add: attempts_def)
  from level_body_winner[OF assms, of run st]
  obtain b where b: "select_best ?ms parallelism = Inr b" "0 \<le> b" "b < parallelism"
    and body: "level_body run parallelism st =
               (case renumber_communities (comms st) (n2c (run (level st) b (g st))) of
                  Inl e \<Rightarrow> Inl e
                | Inr comms' \<Rightarrow>
                    Inr (one_level (run (level st) b (g st)),
                         \<lparr>g = partition2graph (run (level st) b (g st)), comms = comms',
                          level = level st + 1\<rparr>))"
    by blast
  from select_best_scan[OF assms len] b(1)
  have mx: "\<forall>k < nat parallelism. ?ms ! k \<le> ?ms ! nat b"
    and fst: "\<forall>k < nat b. ?ms ! k < ?ms ! nat b" by auto
  have at: "\<And>i. 0 \<le> i \<Longrightarrow> i < parallelism \<Longrightarrow> ?ms ! nat i = modularity (run (level st) i (g st))"
    by (simp add: attempts_def nat_less_iff)
  have 1: "\<forall>i. 0 \<le> i \<and> i < parallelism \<longrightarrow>
                  modularity (run (level st) i (g st)) \<le> modularity (run (level st) b (g st))"
  proof (intro allI impI)
    fix i assume i: "0 \<le> i \<and> i < parallelism"
    then have "nat i < nat parallelism" by linarith
    with mx have "?ms ! nat i \<le> ?ms ! nat b" by blast
    then show "modularity (run (level st) i (g st)) \<le> modularity (run (level st) b (g st))"
      using at[of i] at[of b] i b by simp
  qed
  have 2: "\<forall>i. 0 \<le> i \<and> i < b \<longrightarrow>
                  modularity (run (level st) i (g st)) < modularity (run (level st) b (g st))"
  proof (intro allI impI)
    fix i assume i: "0 \<le> i \<and> i < b"
    then have "nat i < nat b" by linarith
    with fst have "?ms ! nat i < ?ms ! nat b" by blast
    then show "modularity (run (level st) i (g st)) < modularity (run (level st) b (g st))"
      using at[of i] at[of b] i b by simp
  qed
  from b 1 2 body show ?thesis by blast
qed

section \<open>Dense renumbering\<close>

lemma dense_rank_card: "dense_rank ids c = int (card {c' \<in> set ids. c' < c})"
proof -
  have "distinct (filter (\<lambda>c'. c' < c) (remdups ids))" by simp
  then have "length (filter (\<lambda>c'. c' < c) (remdups ids)) = card (set (filter (\<lambda>c'. c' < c) (remdups ids)))"
    by (rule distinct_card[symmetric])
  then show ?thesis by (simp add: dense_rank_def)
qed

lemma dense_rank_strict_mono:
  assumes "x \<in> set ids" and "x < y"
  shows "dense_rank ids x < dense_rank ids y"
proof -
  have "{c' \<in> set ids. c' < x} \<subset> {c' \<in> set ids. c' < y}"
    using assms by auto
  then have "card {c' \<in> set ids. c' < x} < card {c' \<in> set ids. c' < y}"
    by (intro psubset_card_mono) auto
  then show ?thesis by (simp add: dense_rank_card)
qed

lemma dense_rank_less_card:
  assumes "x \<in> set ids"
  shows "dense_rank ids x < int (card (set ids))"
proof -
  have "{c' \<in> set ids. c' < x} \<subset> set ids" using assms by auto
  then have "card {c' \<in> set ids. c' < x} < card (set ids)"
    by (intro psubset_card_mono) auto
  then show ?thesis by (simp add: dense_rank_card)
qed

lemma dense_rank_inj: "inj_on (dense_rank ids) (set ids)"
proof (rule inj_onI)
  fix x y assume "x \<in> set ids" "y \<in> set ids" "dense_rank ids x = dense_rank ids y"
  then show "x = y"
    using dense_rank_strict_mono[of x ids y] dense_rank_strict_mono[of y ids x]
    by (cases x y rule: linorder_cases) auto
qed

lemma dense_rank_image: "dense_rank ids ` set ids = {0..<int (card (set ids))}"
proof -
  let ?k = "card (set ids)"
  let ?r = "\<lambda>x. card {c' \<in> set ids. c' < x}"
  have dr: "\<And>x. dense_rank ids x = int (?r x)" by (rule dense_rank_card)
  have sub: "?r ` set ids \<subseteq> {0..<?k}"
  proof
    fix n assume "n \<in> ?r ` set ids"
    then obtain x where x: "x \<in> set ids" "n = ?r x" by blast
    from dense_rank_less_card[OF x(1)] have "?r x < ?k" by (simp add: dr)
    with x show "n \<in> {0..<?k}" by simp
  qed
  have "inj_on ?r (set ids)"
  proof (rule inj_onI)
    fix x y assume xy: "x \<in> set ids" "y \<in> set ids" and "?r x = ?r y"
    then have "dense_rank ids x = dense_rank ids y" by (simp add: dr)
    with xy show "x = y" using dense_rank_inj[of ids] by (auto dest: inj_onD)
  qed
  then have "card (?r ` set ids) = ?k" by (rule card_image)
  with sub have eq: "?r ` set ids = {0..<?k}"
    by (intro card_subset_eq) auto
  have "dense_rank ids ` set ids = int ` (?r ` set ids)"
    by (simp add: image_image dr)
  also have "\<dots> = {0..<int ?k}" by (simp only: eq image_int_atLeastLessThan) simp
  finally show ?thesis .
qed

lemma renumber_mark_loop:
  fixes ids :: "int list"
  assumes rng: "\<forall>c \<in> set ids. 0 \<le> c \<and> c < int (length ids)"
  shows "\<exists>rn. for_loop 0 (int (length ids))
             (\<lambda>node renumber.
                case vec_at ids node of Inl e \<Rightarrow> Inl e | Inr c \<Rightarrow>
                  vec_modify renumber c (\<lambda>x. x + 1))
             (replicate (length ids) (- 1 :: int)) = Inr rn
          \<and> length rn = length ids
          \<and> (\<forall>c < length ids. (rn ! c \<noteq> - 1) = (int c \<in> set ids))"
proof -
  let ?m = "length ids"
  let ?body = "(\<lambda>node renumber.
                case vec_at ids node of Inl e \<Rightarrow> Inl e | Inr c \<Rightarrow>
                  vec_modify renumber c (\<lambda>x. x + (1::int)))"
  let ?I = "\<lambda>i (rn :: int list). length rn = ?m
        \<and> (\<forall>c < ?m. - 1 \<le> rn ! c \<and> ((rn ! c \<noteq> - 1) = (int c \<in> set (take (nat i) ids))))"
  have "\<exists>t. for_loop 0 (int ?m) ?body (replicate ?m (- 1)) = Inr t \<and> ?I (int ?m) t"
  proof (rule for_loop_invariant)
    show "?I 0 (replicate ?m (- 1))" by simp
    show "0 \<le> int ?m" by simp
  next
    fix j t assume j: "0 \<le> j" "j < int ?m" and I: "?I j t"
    let ?k = "nat j"
    have kl: "?k < ?m" using j by linarith
    let ?c = "ids ! ?k"
    have cin: "?c \<in> set ids" using kl by simp
    with rng have c: "0 \<le> ?c" "?c < int ?m" by auto
    have va: "vec_at ids j = Inr ?c" using j(1) kl by (simp add: vec_at_in_range)
    have vm: "vec_modify t ?c (\<lambda>x. x + 1) = Inr (t[nat ?c := t ! nat ?c + 1])"
      using c I by (simp add: vec_modify_def)
    have tk: "take (nat (j + 1)) ids = take ?k ids @ [?c]"
      using kl j(1) by (simp add: nat_add_distrib take_Suc_conv_app_nth)
    have "?I (j + 1) (t[nat ?c := t ! nat ?c + 1])"
    proof (intro conjI allI impI)
      show "length (t[nat ?c := t ! nat ?c + 1]) = ?m" using I by simp
    next
      fix d assume d: "d < ?m"
      have td: "- 1 \<le> t ! d" and lt: "length t = ?m" using I d by blast+
      show "- 1 \<le> t[nat ?c := t ! nat ?c + 1] ! d"
      proof (cases "d = nat ?c")
        case True
        then show ?thesis using td lt d by simp
      next
        case False
        then show ?thesis using td by simp
      qed
    next
      fix d assume d: "d < ?m"
      show "(t[nat ?c := t ! nat ?c + 1] ! d \<noteq> - 1) = (int d \<in> set (take (nat (j + 1)) ids))"
      proof (cases "d = nat ?c")
        case True
        then have dc: "int d = ?c" using c by simp
        have "- 1 \<le> t ! d" using I d by blast
        then have "t ! d + 1 \<noteq> - 1" by linarith
        moreover have "length t = ?m" using I by blast
        ultimately have "t[nat ?c := t ! nat ?c + 1] ! d \<noteq> - 1"
          using True d by simp
        moreover have "int d \<in> set (take (nat (j + 1)) ids)" using dc tk by simp
        ultimately show ?thesis by blast
      next
        case False
        then have "int d \<noteq> ?c" using c by auto
        moreover have "(t ! d \<noteq> - 1) = (int d \<in> set (take ?k ids))" using I d by blast
        ultimately show ?thesis using False tk by simp
      qed
    qed
    moreover have "?body j t = Inr (t[nat ?c := t ! nat ?c + 1])" by (simp add: va vm)
    ultimately show "\<exists>t'. ?body j t = Inr t' \<and> ?I (j + 1) t'" by blast
  qed
  then obtain t where tI: "for_loop 0 (int ?m) ?body (replicate ?m (- 1)) = Inr t \<and> ?I (int ?m) t"
    by (erule exE)
  have t: "for_loop 0 (int ?m) ?body (replicate ?m (- 1)) = Inr t" by (rule tI[THEN conjunct1])
  have It: "?I (int ?m) t" by (rule tI[THEN conjunct2])
  have "\<forall>c < ?m. (t ! c \<noteq> - 1) = (int c \<in> set ids)"
  proof (intro allI impI)
    fix c assume "c < ?m"
    with It have "(t ! c \<noteq> - 1) = (int c \<in> set (take (nat (int ?m)) ids))" by blast
    then show "(t ! c \<noteq> - 1) = (int c \<in> set ids)" by simp
  qed
  moreover have "length t = ?m" using It by blast
  ultimately show ?thesis using t by blast
qed

lemma dense_rank_succ:
  "dense_rank ids (j + 1) = (if j \<in> set ids then dense_rank ids j + 1 else dense_rank ids j)"
proof (cases "j \<in> set ids")
  case True
  have "{c' \<in> set ids. c' < j + 1} = insert j {c' \<in> set ids. c' < j}" using True by auto
  moreover have "card (insert j {c' \<in> set ids. c' < j}) = Suc (card {c' \<in> set ids. c' < j})"
    by (intro card_insert_disjoint) auto
  ultimately show ?thesis using True by (simp add: dense_rank_card)
next
  case False
  have "{c' \<in> set ids. c' < j + 1} = {c' \<in> set ids. c' < j}"
    using False by (auto simp: less_le) 
  then show ?thesis using False by (simp add: dense_rank_card)
qed

lemma dense_rank_zero: "\<forall>c \<in> set ids. 0 \<le> c \<Longrightarrow> dense_rank ids 0 = 0"
  by (auto simp: dense_rank_def filter_empty_conv)

lemma renumber_number_loop:
  fixes ids rn :: "int list"
  assumes rng: "\<forall>c \<in> set ids. 0 \<le> c"
    and len: "length rn = length ids"
    and mark: "\<forall>c < length ids. (rn ! c \<noteq> - 1) = (int c \<in> set ids)"
  shows "\<exists>rn' final. for_loop 0 (int (length ids))
                 (\<lambda>i (renumber, final).
                    case vec_at renumber i of Inl e \<Rightarrow> Inl e | Inr r \<Rightarrow>
                      if r \<noteq> - 1 then
                        (case vec_set renumber i final of Inl e \<Rightarrow> Inl e
                         | Inr renumber' \<Rightarrow> Inr (renumber', final + 1))
                      else Inr (renumber, final))
                 (rn, 0) = Inr (rn', final)
          \<and> length rn' = length ids
          \<and> (\<forall>c < length ids. int c \<in> set ids \<longrightarrow> rn' ! c = dense_rank ids (int c))"
proof -
  let ?m = "length ids"
  let ?body = "(\<lambda>i (renumber, final).
                    case vec_at renumber i of Inl e \<Rightarrow> Inl e | Inr r \<Rightarrow>
                      if r \<noteq> - 1 then
                        (case vec_set renumber i final of Inl e \<Rightarrow> Inl e
                         | Inr renumber' \<Rightarrow> Inr (renumber', final + 1))
                      else Inr (renumber, final :: int))"
  let ?I = "\<lambda>i (t :: int list \<times> int). length (fst t) = ?m \<and> snd t = dense_rank ids i
        \<and> (\<forall>c < ?m. if int c < i then (int c \<in> set ids \<longrightarrow> fst t ! c = dense_rank ids (int c))
                      else fst t ! c = rn ! c)"
  have "\<exists>t. for_loop 0 (int ?m) ?body (rn, 0) = Inr t \<and> ?I (int ?m) t"
  proof (rule for_loop_invariant)
    show "?I 0 (rn, 0)" using len rng by (simp add: dense_rank_zero)
    show "0 \<le> int ?m" by simp
  next
    fix j t assume j: "0 \<le> j" "j < int ?m" and I: "?I j t"
    obtain r f where t: "t = (r, f)" by (cases t)
    let ?k = "nat j"
    have kl: "?k < ?m" using j by linarith
    have lr: "length r = ?m" and f: "f = dense_rank ids j" using I t by auto
    have rk: "r ! ?k = rn ! ?k" using I t kl j by auto
    have va: "vec_at r j = Inr (r ! ?k)" using j(1) kl lr by (simp add: vec_at_in_range)
    have used: "(r ! ?k \<noteq> - 1) = (j \<in> set ids)" using mark kl rk j(1) by auto
    show "\<exists>t'. ?body j t = Inr t' \<and> ?I (j + 1) t'"
    proof (cases "j \<in> set ids")
      case True
      have vs: "vec_set r j f = Inr (r[?k := f])" using j kl lr by (simp add: vec_set_def)
      have "?I (j + 1) (r[?k := f], f + 1)"
      proof (intro conjI allI)
        show "length (fst (r[?k := f], f + 1)) = ?m" using lr by simp
        show "snd (r[?k := f], f + 1) = dense_rank ids (j + 1)"
          using True f by (simp add: dense_rank_succ)
      next
        fix c
        show "c < ?m \<longrightarrow> (if int c < j + 1
              then int c \<in> set ids \<longrightarrow> fst (r[?k := f], f + 1) ! c = dense_rank ids (int c)
              else fst (r[?k := f], f + 1) ! c = rn ! c)"
        proof (cases "c = ?k")
          case True
          then show ?thesis using j(1) lr kl f by simp
        next
          case False
          then have ne: "int c \<noteq> j" using j(1) by auto
          show ?thesis
          proof
            assume c: "c < ?m"
            with I t have old: "if int c < j then (int c \<in> set ids \<longrightarrow> r ! c = dense_rank ids (int c))
                      else r ! c = rn ! c" by auto
            show "if int c < j + 1
              then int c \<in> set ids \<longrightarrow> fst (r[?k := f], f + 1) ! c = dense_rank ids (int c)
              else fst (r[?k := f], f + 1) ! c = rn ! c"
              using old ne False by (simp split: if_splits)
          qed
        qed
      qed
      moreover have "?body j t = Inr (r[?k := f], f + 1)"
        using True used by (simp add: t va vs)
      ultimately show ?thesis by blast
    next
      case False
      have "?I (j + 1) (r, f)"
      proof (intro conjI allI)
        show "length (fst (r, f)) = ?m" using lr by simp
        show "snd (r, f) = dense_rank ids (j + 1)" using False f by (simp add: dense_rank_succ)
      next
        fix c
        show "c < ?m \<longrightarrow> (if int c < j + 1
              then int c \<in> set ids \<longrightarrow> fst (r, f) ! c = dense_rank ids (int c)
              else fst (r, f) ! c = rn ! c)"
        proof (cases "int c = j")
          case True
          then show ?thesis using False by simp
        next
          case F: False
          show ?thesis
          proof
            assume c: "c < ?m"
            with I t have old: "if int c < j then (int c \<in> set ids \<longrightarrow> r ! c = dense_rank ids (int c))
                      else r ! c = rn ! c" by auto
            show "if int c < j + 1
              then int c \<in> set ids \<longrightarrow> fst (r, f) ! c = dense_rank ids (int c)
              else fst (r, f) ! c = rn ! c"
              using old F by (simp split: if_splits)
          qed
        qed
      qed
      moreover have "?body j t = Inr (r, f)"
        using False used by (simp add: t va)
      ultimately show ?thesis by blast
    qed
  qed
  then obtain t where tI: "for_loop 0 (int ?m) ?body (rn, 0) = Inr t \<and> ?I (int ?m) t"
    by (erule exE)
  obtain r f where rf: "t = (r, f)" by (cases t)
  have t: "for_loop 0 (int ?m) ?body (rn, 0) = Inr (r, f)" using tI rf by simp
  have It: "?I (int ?m) (r, f)" using tI[THEN conjunct2] rf by simp
  have "\<forall>c < ?m. int c \<in> set ids \<longrightarrow> r ! c = dense_rank ids (int c)"
  proof (intro allI impI)
    fix c assume c: "c < ?m" "int c \<in> set ids"
    from It c(1) have "if int c < int ?m then (int c \<in> set ids \<longrightarrow> fst (r, f) ! c = dense_rank ids (int c))
                      else fst (r, f) ! c = rn ! c" by blast
    with c show "r ! c = dense_rank ids (int c)" by simp
  qed
  moreover have "length r = ?m" using It by simp
  ultimately show ?thesis using t by blast
qed

lemma renumber_rewrite_loop:
  fixes ids rn cs :: "int list"
  assumes rng: "\<forall>c \<in> set ids. 0 \<le> c \<and> c < int (length ids)"
    and crng: "\<forall>c \<in> set cs. 0 \<le> c \<and> c < int (length ids)"
    and len: "length rn = length ids"
  shows "for_loop 0 (int (length cs))
                (\<lambda>i comms.
                   case vec_at comms i of Inl e \<Rightarrow> Inl e | Inr old_community \<Rightarrow>
                  (case vec_at ids old_community of Inl e \<Rightarrow> Inl e | Inr new_community \<Rightarrow>
                  (case vec_at rn new_community of Inl e \<Rightarrow> Inl e
                   | Inr new_renumbered_community \<Rightarrow>
                       vec_set comms i new_renumbered_community)))
                cs
         = Inr (map (\<lambda>c. rn ! nat (ids ! nat c)) cs)"
proof -
  let ?n = "length cs"
  let ?F = "\<lambda>c. rn ! nat (ids ! nat c)"
  let ?body = "(\<lambda>i comms.
                   case vec_at comms i of Inl e \<Rightarrow> Inl e | Inr old_community \<Rightarrow>
                  (case vec_at ids old_community of Inl e \<Rightarrow> Inl e | Inr new_community \<Rightarrow>
                  (case vec_at rn new_community of Inl e \<Rightarrow> Inl e
                   | Inr new_renumbered_community \<Rightarrow>
                       vec_set comms i new_renumbered_community)))"
  let ?I = "\<lambda>i (t :: int list). t = map ?F (take (nat i) cs) @ drop (nat i) cs"
  have "\<exists>t. for_loop 0 (int ?n) ?body cs = Inr t \<and> ?I (int ?n) t"
  proof (rule for_loop_invariant)
    show "?I 0 cs" by simp
    show "0 \<le> int ?n" by simp
  next
    fix j t assume j: "0 \<le> j" "j < int ?n" and I: "?I j t"
    let ?k = "nat j"
    have kl: "?k < ?n" using j by linarith
    let ?old = "cs ! ?k"
    have "?old \<in> set cs" using kl by simp
    with crng have old: "0 \<le> ?old" "?old < int (length ids)" by auto
    let ?new = "ids ! nat ?old"
    have "?new \<in> set ids" using old by (simp add: nat_less_iff)
    with rng have new: "0 \<le> ?new" "?new < int (length ids)" by auto
    have lt: "length t = ?n" using I by simp
    have tk: "t ! ?k = ?old" using I kl by (simp add: nth_append)
    have v1: "vec_at t j = Inr ?old" using j(1) kl lt tk by (simp add: vec_at_in_range)
    have v2: "vec_at ids ?old = Inr ?new" using old by (simp add: vec_at_def)
    have v3: "vec_at rn ?new = Inr (?F ?old)" using new len by (simp add: vec_at_def)
    have v4: "vec_set t j (?F ?old) = Inr (t[?k := ?F ?old])" using j lt by (simp add: vec_set_def)
    have step: "(map ?F (take ?k cs) @ drop ?k cs)[?k := ?F ?old]
              = map ?F (take (Suc ?k) cs) @ drop (Suc ?k) cs"
      using kl by (simp add: take_Suc_conv_app_nth list_update_append Cons_nth_drop_Suc[symmetric])
    have nat1: "nat (j + 1) = Suc ?k" using j(1) by simp
    have "?body j t = Inr (t[?k := ?F ?old])" by (simp add: v1 v2 v3 v4)
    moreover have "?I (j + 1) (t[?k := ?F ?old])" unfolding nat1 using I step by simp
    ultimately show "\<exists>t'. ?body j t = Inr t' \<and> ?I (j + 1) t'" by blast
  qed
  then show ?thesis by simp
qed

lemma renumber_communities_dense_rank:
  fixes ids cs :: "int list"
  assumes rng: "\<forall>c \<in> set ids. 0 \<le> c \<and> c < int (length ids)"
    and crng: "\<forall>c \<in> set cs. 0 \<le> c \<and> c < int (length ids)"
  shows "renumber_communities cs ids = Inr (map (\<lambda>c. dense_rank ids (ids ! nat c)) cs)"
proof -
  from renumber_mark_loop[OF rng] obtain rn where
    l1: "for_loop 0 (int (length ids))
             (\<lambda>node renumber.
                case vec_at ids node of Inl e \<Rightarrow> Inl e | Inr c \<Rightarrow>
                  vec_modify renumber c (\<lambda>x. x + 1))
             (replicate (length ids) (- 1 :: int)) = Inr rn"
    and len1: "length rn = length ids"
    and mark: "\<forall>c < length ids. (rn ! c \<noteq> - 1) = (int c \<in> set ids)"
    by blast
  have nn: "\<forall>c \<in> set ids. 0 \<le> c" using rng by blast
  from renumber_number_loop[OF nn len1 mark] obtain rn' final where
    l2: "for_loop 0 (int (length ids))
                 (\<lambda>i (renumber, final).
                    case vec_at renumber i of Inl e \<Rightarrow> Inl e | Inr r \<Rightarrow>
                      if r \<noteq> - 1 then
                        (case vec_set renumber i final of Inl e \<Rightarrow> Inl e
                         | Inr renumber' \<Rightarrow> Inr (renumber', final + 1))
                      else Inr (renumber, final))
                 (rn, 0) = Inr (rn', final)"
    and len2: "length rn' = length ids"
    and rank: "\<forall>c < length ids. int c \<in> set ids \<longrightarrow> rn' ! c = dense_rank ids (int c)"
    by blast
  have l3: "for_loop 0 (int (length cs))
                (\<lambda>i comms.
                   case vec_at comms i of Inl e \<Rightarrow> Inl e | Inr old_community \<Rightarrow>
                  (case vec_at ids old_community of Inl e \<Rightarrow> Inl e | Inr new_community \<Rightarrow>
                  (case vec_at rn' new_community of Inl e \<Rightarrow> Inl e
                   | Inr new_renumbered_community \<Rightarrow>
                       vec_set comms i new_renumbered_community)))
                cs
         = Inr (map (\<lambda>c. rn' ! nat (ids ! nat c)) cs)"
    using rng crng len2 by (rule renumber_rewrite_loop)
  have "map (\<lambda>c. rn' ! nat (ids ! nat c)) cs = map (\<lambda>c. dense_rank ids (ids ! nat c)) cs"
  proof (rule map_cong[OF refl])
    fix c assume "c \<in> set cs"
    with crng have c: "0 \<le> c" "c < int (length ids)" by auto
    then have in_ids: "ids ! nat c \<in> set ids" by (simp add: nat_less_iff)
    with rng have r: "0 \<le> ids ! nat c" "ids ! nat c < int (length ids)" by auto
    then have "nat (ids ! nat c) < length ids" by linarith
    with rank in_ids r show "rn' ! nat (ids ! nat c) = dense_rank ids (ids ! nat c)" by simp
  qed
  with l3 show ?thesis
    unfolding renumber_communities_def by (simp add: l1 l2)
qed

lemma renumber_communities_dense:
  fixes ids cs :: "int list"
  assumes rng: "\<forall>c \<in> set ids. 0 \<le> c \<and> c < int (length ids)"
    and surj: "set cs = {0..<int (length ids)}"
  shows "\<exists>cs'. renumber_communities cs ids = Inr cs'
           \<and> length cs' = length cs
           \<and> set cs' = {0..<int (card (set ids))}
           \<and> (\<forall>i < length cs. \<forall>j < length cs.
                 (ids ! nat (cs ! i) < ids ! nat (cs ! j)) = (cs' ! i < cs' ! j))"
proof -
  let ?F = "\<lambda>c. dense_rank ids (ids ! nat c)"
  have crng: "\<forall>c \<in> set cs. 0 \<le> c \<and> c < int (length ids)" using surj by simp
  have r: "renumber_communities cs ids = Inr (map ?F cs)"
    using rng crng by (rule renumber_communities_dense_rank)
  have img: "(\<lambda>c. ids ! nat c) ` {0..<int (length ids)} = set ids"
  proof (rule set_eqI)
    fix x
    show "x \<in> (\<lambda>c. ids ! nat c) ` {0..<int (length ids)} \<longleftrightarrow> x \<in> set ids"
    proof
      assume "x \<in> (\<lambda>c. ids ! nat c) ` {0..<int (length ids)}"
      then obtain c where "0 \<le> c" "c < int (length ids)" "x = ids ! nat c" by auto
      then show "x \<in> set ids" by (simp add: nat_less_iff)
    next
      assume "x \<in> set ids"
      then obtain k where k: "k < length ids" "ids ! k = x" by (auto simp: in_set_conv_nth)
      then have "int k \<in> {0..<int (length ids)}" "x = ids ! nat (int k)" by simp_all
      then show "x \<in> (\<lambda>c. ids ! nat c) ` {0..<int (length ids)}" by (rule rev_image_eqI)
    qed
  qed
  have "set (map ?F cs) = dense_rank ids ` ((\<lambda>c. ids ! nat c) ` set cs)"
    by (simp add: image_image)
  also have "\<dots> = dense_rank ids ` set ids" by (simp only: surj img)
  also have "\<dots> = {0..<int (card (set ids))}" by (rule dense_rank_image)
  finally have dense: "set (map ?F cs) = {0..<int (card (set ids))}" .
  have mono: "\<forall>i < length cs. \<forall>j < length cs.
                 (ids ! nat (cs ! i) < ids ! nat (cs ! j)) = (map ?F cs ! i < map ?F cs ! j)"
  proof (intro allI impI)
    fix i j assume i: "i < length cs" and j: "j < length cs"
    let ?x = "ids ! nat (cs ! i)" and ?y = "ids ! nat (cs ! j)"
    have "cs ! i \<in> set cs" "cs ! j \<in> set cs" using i j by simp_all
    with crng have "nat (cs ! i) < length ids" "nat (cs ! j) < length ids" by (auto simp: nat_less_iff)
    then have xy: "?x \<in> set ids" "?y \<in> set ids" by simp_all
    have "(?x < ?y) = (dense_rank ids ?x < dense_rank ids ?y)"
    proof (cases ?x ?y rule: linorder_cases)
      case less
      then show ?thesis using dense_rank_strict_mono[OF xy(1)] by simp
    next
      case equal
      then show ?thesis by simp
    next
      case greater
      then show ?thesis using dense_rank_strict_mono[OF xy(2), of ?x] by simp
    qed
    then show "(?x < ?y) = (map ?F cs ! i < map ?F cs ! j)" using i j by simp
  qed
  from r dense mono show ?thesis by simp
qed

lemma initial_state_identity:
  assumes "0 \<le> nb_nodes graph"
  shows "initial_state nb_nodes graph =
           Inr \<lparr>g = graph, comms = map int [0..<nat (nb_nodes graph)], level = 0\<rparr>"
proof -
  let ?n = "nb_nodes graph"
  let ?I = "\<lambda>i (v :: int list). v = map int [0..<nat i] @ replicate (nat ?n - nat i) 0"
  have "\<exists>t. for_loop 0 ?n (\<lambda>i v. vec_set v i i) (replicate (nat ?n) 0) = Inr t \<and> ?I ?n t"
  proof (rule for_loop_invariant[where I = ?I])
    show "?I 0 (replicate (nat ?n) 0)" by simp
    show "0 \<le> ?n" by (rule assms)
  next
    fix j t assume j: "0 \<le> j" "j < ?n" and I: "?I j t"
    let ?k = "nat j"
    have kl: "?k < nat ?n" using j by linarith
    have "length t = ?k + (nat ?n - ?k)" using I by simp
    then have lt: "length t = nat ?n" using kl by linarith
    have vs: "vec_set t j j = Inr (t[?k := j])" using j lt by (simp add: vec_set_def)
    have rep: "replicate (nat ?n - ?k) (0::int) = 0 # replicate (nat ?n - Suc ?k) 0"
      using kl by (simp add: Suc_diff_Suc flip: replicate_Suc)
    have "t[?k := j] = map int [0..<Suc ?k] @ replicate (nat ?n - Suc ?k) 0"
      using I j(1) by (simp add: rep list_update_append)
    moreover have "nat (j + 1) = Suc ?k" using j(1) by simp
    ultimately show "\<exists>t'. vec_set t j j = Inr t' \<and> ?I (j + 1) t'" using vs by simp
  qed
  then show ?thesis using assms by (simp add: initial_state_def)
qed

lemma contract_nb_nodes_nonneg:
  assumes "partition_contract nb_nodes run"
  shows "0 \<le> nb_nodes gr"
proof -
  from assms have "int (length (n2c (run 0 0 gr))) = nb_nodes gr"
    unfolding partition_contract_def by blast
  then show ?thesis by linarith
qed

lemma level_body_dense:
  fixes run :: "int \<Rightarrow> int \<Rightarrow> 'g \<Rightarrow> ('g, 'm::linorder) Partition"
  assumes contract: "partition_contract nb_nodes run" and par: "1 \<le> parallelism"
    and inv: "set (comms st) = {0..<nb_nodes (g st)}"
  shows "\<exists>b st'. 0 \<le> b \<and> b < parallelism
           \<and> select_best (map modularity (attempts run parallelism st)) parallelism = Inr b
           \<and> level_body run parallelism st = Inr (one_level (run (level st) b (g st)), st')
           \<and> set (comms st') = {0..<nb_nodes (g st')}
           \<and> length (comms st') = length (comms st)
           \<and> level st' = level st + 1
           \<and> (\<forall>i < length (comms st). \<forall>j < length (comms st).
                 (n2c (run (level st) b (g st)) ! nat (comms st ! i)
                    < n2c (run (level st) b (g st)) ! nat (comms st ! j))
                 = (comms st' ! i < comms st' ! j))"
proof -
  from level_body_winner[OF par, of run st]
  obtain b where b: "0 \<le> b" "b < parallelism"
    and sel: "select_best (map modularity (attempts run parallelism st)) parallelism = Inr b"
    and body: "level_body run parallelism st =
               (case renumber_communities (comms st) (n2c (run (level st) b (g st))) of
                  Inl e \<Rightarrow> Inl e
                | Inr comms' \<Rightarrow>
                    Inr (one_level (run (level st) b (g st)),
                         \<lparr>g = partition2graph (run (level st) b (g st)), comms = comms',
                          level = level st + 1\<rparr>))"
    by blast
  let ?w = "run (level st) b (g st)"
  from contract have len: "int (length (n2c ?w)) = nb_nodes (g st)"
    and rng: "\<forall>c \<in> set (n2c ?w). 0 \<le> c \<and> c < nb_nodes (g st)"
    and nb': "nb_nodes (partition2graph ?w) = int (card (set (n2c ?w)))"
    unfolding partition_contract_def by blast+
  have rng': "\<forall>c \<in> set (n2c ?w). 0 \<le> c \<and> c < int (length (n2c ?w))" using rng len by simp
  have surj: "set (comms st) = {0..<int (length (n2c ?w))}" using inv len by simp
  from renumber_communities_dense[OF rng' surj]
  obtain cs' where cs': "renumber_communities (comms st) (n2c ?w) = Inr cs'"
    "length cs' = length (comms st)" "set cs' = {0..<int (card (set (n2c ?w)))}"
    "\<forall>i < length (comms st). \<forall>j < length (comms st).
        (n2c ?w ! nat (comms st ! i) < n2c ?w ! nat (comms st ! j)) = (cs' ! i < cs' ! j)"
    by blast
  let ?st' = "\<lparr>g = partition2graph ?w, comms = cs', level = level st + 1\<rparr>"
  have "level_body run parallelism st = Inr (one_level ?w, ?st')" using body cs'(1) by simp
  moreover have "set (comms ?st') = {0..<nb_nodes (g ?st')}" using cs'(3) nb' by simp
  moreover have "length (comms ?st') = length (comms st)" using cs'(2) by simp
  moreover have "level ?st' = level st + 1" by simp
  moreover have "\<forall>i < length (comms st). \<forall>j < length (comms st).
        (n2c ?w ! nat (comms st ! i) < n2c ?w ! nat (comms st ! j)) = (comms ?st' ! i < comms ?st' ! j)"
    using cs'(4) by simp
  ultimately show ?thesis using b sel by blast
qed

lemma level_body_level:
  assumes "level_body run parallelism st = Inr (improvement, st')"
  shows "level st' = level st + 1"
  using assms unfolding level_body_def Let_def
  by (auto split: sum.splits)

lemma levels_dense:
  fixes run :: "int \<Rightarrow> int \<Rightarrow> 'g \<Rightarrow> ('g, 'm::linorder) Partition"
  assumes ret: "levels run parallelism st = Some r"
    and contract: "partition_contract nb_nodes run" and par: "1 \<le> parallelism"
    and inv: "set (comms st) = {0..<nb_nodes (g st)}"
  shows "\<exists>st'. r = Inr st' \<and> set (comms st') = {0..<nb_nodes (g st')}
                \<and> length (comms st') = length (comms st)"
proof -
  let ?P = "\<lambda>(rn :: int \<Rightarrow> int \<Rightarrow> 'g \<Rightarrow> ('g, 'm) Partition) (pr :: int) (s :: 'g level_state)
              (y :: error + 'g level_state).
      partition_contract nb_nodes rn \<longrightarrow> 1 \<le> pr \<longrightarrow> set (comms s) = {0..<nb_nodes (g s)} \<longrightarrow>
      (\<exists>st'. y = Inr st' \<and> set (comms st') = {0..<nb_nodes (g st')}
                \<and> length (comms st') = length (comms s))"
  have "?P run parallelism st r"
  proof (rule levels.raw_induct[where P = ?P, OF _ ret])
    fix lv :: "(int \<Rightarrow> int \<Rightarrow> 'g \<Rightarrow> ('g, 'm) Partition) \<Rightarrow> int \<Rightarrow> 'g level_state \<Rightarrow> (error + 'g level_state) option"
    fix rn pr s y
    assume IH: "\<And>rn pr s y. lv rn pr s = Some y \<Longrightarrow> ?P rn pr s y"
      and F: "(case level_body rn pr s of Inl e \<Rightarrow> Some (Inl e)
               | Inr (improvement, st') \<Rightarrow> if improvement then lv rn pr st' else Some (Inr st'))
              = Some y"
    show "?P rn pr s y"
    proof (intro impI)
      assume c: "partition_contract nb_nodes rn" and p: "1 \<le> pr"
        and i: "set (comms s) = {0..<nb_nodes (g s)}"
      from level_body_dense[OF c p i]
      obtain imp s1 where body: "level_body rn pr s = Inr (imp, s1)"
        and inv1: "set (comms s1) = {0..<nb_nodes (g s1)}"
        and len1: "length (comms s1) = length (comms s)"
        by blast
      show "\<exists>st'. y = Inr st' \<and> set (comms st') = {0..<nb_nodes (g st')}
                \<and> length (comms st') = length (comms s)"
      proof (cases imp)
        case True
        with F body have "lv rn pr s1 = Some y" by simp
        from IH[OF this] c p inv1 len1 show ?thesis by auto
      next
        case False
        with F body have "y = Inr s1" by simp
        with inv1 len1 show ?thesis by blast
      qed
    qed
  qed
  with contract par inv show ?thesis by blast
qed

lemma example_run_contract: "partition_contract int example_run"
  unfolding partition_contract_def
proof (intro allI)
  fix lvl i :: int and gr :: nat
  have "card (set (map int [0..<gr])) = gr"
    by (simp add: card_image)
  moreover have "card (set [0, 0, 2, 2 :: int]) = 2" by simp
  ultimately show "int (length (n2c (example_run lvl i gr))) = int gr \<and>
       (\<forall>c\<in>set (n2c (example_run lvl i gr)). 0 \<le> c \<and> c < int gr) \<and>
       int (partition2graph (example_run lvl i gr)) = int (card (set (n2c (example_run lvl i gr))))"
    by (auto simp: example_run_def)
qed

lemma example_level_0:
  "level_body example_run 4 \<lparr>g = 4, comms = [0, 1, 2, 3], level = 0\<rparr>
     = Inr (True, \<lparr>g = 2, comms = [0, 0, 1, 1], level = 1\<rparr>)"
  by code_simp

lemma example_level_1:
  "level_body example_run 4 \<lparr>g = 2, comms = [0, 0, 1, 1], level = 1\<rparr>
     = Inr (False, \<lparr>g = 2, comms = [0, 0, 1, 1], level = 2\<rparr>)"
  by code_simp

lemma example_initial_state:
  "initial_state int (4::nat) = Inr \<lparr>g = 4, comms = [0, 1, 2, 3], level = 0\<rparr>"
  by code_simp

lemma example_levels:
  "levels example_run 4 \<lparr>g = 4, comms = [0, 1, 2, 3], level = 0\<rparr>
     = Some (Inr \<lparr>g = 2, comms = [0, 0, 1, 1], level = 2\<rparr>)"
  by (subst levels.simps, simp add: example_level_0, subst levels.simps, simp add: example_level_1)

section \<open>The level loop\<close>

lemma levels_stops_backward:
  fixes run :: "int \<Rightarrow> int \<Rightarrow> 'g \<Rightarrow> ('g, 'm::linorder) Partition"
  assumes ret: "levels run parallelism st = Some (Inr s)"
  shows "\<exists>k. nth_level run parallelism k st = Inr (False, s)
           \<and> (\<forall>j < k. \<exists>sj. nth_level run parallelism j st = Inr (True, sj))
           \<and> level s = level st + int k + 1"
proof -
  let ?P = "\<lambda>(rn :: int \<Rightarrow> int \<Rightarrow> 'g \<Rightarrow> ('g, 'm) Partition) (pr :: int) (s0 :: 'g level_state)
              (y :: error + 'g level_state).
      \<forall>s. y = Inr s \<longrightarrow>
        (\<exists>k. nth_level rn pr k s0 = Inr (False, s)
           \<and> (\<forall>j < k. \<exists>sj. nth_level rn pr j s0 = Inr (True, sj))
           \<and> level s = level s0 + int k + 1)"
  have "?P run parallelism st (Inr s)"
  proof (rule levels.raw_induct[where P = ?P, OF _ ret])
    fix lv :: "(int \<Rightarrow> int \<Rightarrow> 'g \<Rightarrow> ('g, 'm) Partition) \<Rightarrow> int \<Rightarrow> 'g level_state \<Rightarrow> (error + 'g level_state) option"
    fix rn pr s0 y
    assume IH: "\<And>rn pr s y. lv rn pr s = Some y \<Longrightarrow> ?P rn pr s y"
      and F: "(case level_body rn pr s0 of Inl e \<Rightarrow> Some (Inl e)
               | Inr (improvement, st') \<Rightarrow> if improvement then lv rn pr st' else Some (Inr st'))
              = Some y"
    show "?P rn pr s0 y"
    proof (intro allI impI)
      fix s assume y: "y = Inr s"
      show "\<exists>k. nth_level rn pr k s0 = Inr (False, s)
           \<and> (\<forall>j < k. \<exists>sj. nth_level rn pr j s0 = Inr (True, sj))
           \<and> level s = level s0 + int k + 1"
      proof (cases "level_body rn pr s0")
        case (Inl e)
        with F y show ?thesis by simp
      next
        case (Inr res)
        obtain imp s1 where res: "res = (imp, s1)" by (cases res)
        have body: "level_body rn pr s0 = Inr (imp, s1)" using Inr res by simp
        have lvl1: "level s1 = level s0 + 1" using body by (rule level_body_level)
        show ?thesis
        proof (cases imp)
          case False
          with F body y have "s1 = s" by simp
          then have "nth_level rn pr 0 s0 = Inr (False, s)" using body False by simp
          moreover have "level s = level s0 + int 0 + 1" using lvl1 \<open>s1 = s\<close> by simp
          ultimately show ?thesis by blast
        next
          case True
          with F body have "lv rn pr s1 = Some y" by simp
          from IH[OF this] y obtain k where k: "nth_level rn pr k s1 = Inr (False, s)"
            "\<forall>j < k. \<exists>sj. nth_level rn pr j s1 = Inr (True, sj)"
            "level s = level s1 + int k + 1" by blast
          have 1: "nth_level rn pr (Suc k) s0 = Inr (False, s)" using body k(1) by simp
          have 2: "\<forall>j < Suc k. \<exists>sj. nth_level rn pr j s0 = Inr (True, sj)"
          proof (intro allI impI)
            fix j assume j: "j < Suc k"
            show "\<exists>sj. nth_level rn pr j s0 = Inr (True, sj)"
            proof (cases j)
              case 0
              then show ?thesis using body True by simp
            next
              case (Suc j')
              then have "j' < k" using j by simp
              with k(2) obtain sj where "nth_level rn pr j' s1 = Inr (True, sj)" by blast
              then show ?thesis using Suc body by simp
            qed
          qed
          have 3: "level s = level s0 + int (Suc k) + 1" using k(3) lvl1 by simp
          from 1 2 3 show ?thesis by blast
        qed
      qed
    qed
  qed
  then show ?thesis by blast
qed

lemma levels_stops_forward:
  fixes run :: "int \<Rightarrow> int \<Rightarrow> 'g \<Rightarrow> ('g, 'm::linorder) Partition"
  assumes "nth_level run parallelism k st = Inr (False, s)"
    and "\<forall>j < k. \<exists>sj. nth_level run parallelism j st = Inr (True, sj)"
  shows "levels run parallelism st = Some (Inr s)"
  using assms
proof (induction k arbitrary: st)
  case 0
  then show ?case by (subst levels.simps) simp
next
  case (Suc k)
  from Suc.prems(2) obtain s1 where s1: "nth_level run parallelism 0 st = Inr (True, s1)" by blast
  then have body: "level_body run parallelism st = Inr (True, s1)" by simp
  have a: "nth_level run parallelism k s1 = Inr (False, s)" using Suc.prems(1) body by simp
  have b: "\<forall>j < k. \<exists>sj. nth_level run parallelism j s1 = Inr (True, sj)"
  proof (intro allI impI)
    fix j assume "j < k"
    then have "Suc j < Suc k" by simp
    with Suc.prems(2) obtain sj where "nth_level run parallelism (Suc j) st = Inr (True, sj)" by blast
    then show "\<exists>sj. nth_level run parallelism j s1 = Inr (True, sj)" using body by simp
  qed
  have "levels run parallelism s1 = Some (Inr s)" using a b by (rule Suc.IH)
  then show ?case by (subst levels.simps) (simp add: body)
qed

text \<open>
  Claim C6: the loop returns a state exactly when some pass is the first whose winner
  reports no improvement, every pass before it having reported one, and it returns the
  state of that pass, \<open>k + 1\<close> passes after the start; the flag of a pass is the
  \<^verbatim>\<open>one_level\<close> result of the attempt the selection picked. When under the contract of
  \<open>Partition\<close> no attempt on the input graph reports an improvement, that is the first pass:
  the loop ends after exactly one level and \<open>evaluateGraph\<close> returns.
\<close>

theorem loop_runs_while_winner_improves:
  fixes run :: "int \<Rightarrow> int \<Rightarrow> 'g \<Rightarrow> ('g, 'm::linorder) Partition"
  shows "(levels run parallelism st = Some (Inr s) \<longleftrightarrow>
            (\<exists>k. nth_level run parallelism k st = Inr (False, s)
               \<and> (\<forall>j < k. \<exists>sj. nth_level run parallelism j st = Inr (True, sj))))
       \<and> (levels run parallelism st = Some (Inr s) \<longrightarrow>
            (\<exists>k. nth_level run parallelism k st = Inr (False, s)
               \<and> level s = level st + int k + 1))
       \<and> (1 \<le> parallelism \<longrightarrow>
            (\<exists>b. select_best (map modularity (attempts run parallelism st)) parallelism = Inr b
               \<and> (\<forall>improvement st'. level_body run parallelism st = Inr (improvement, st') \<longrightarrow>
                      improvement = one_level (run (level st) b (g st)))))
       \<and> (partition_contract nb_nodes run \<and> 1 \<le> parallelism
            \<and> (\<forall>i. 0 \<le> i \<and> i < parallelism \<longrightarrow> \<not> one_level (run 0 i graph)) \<longrightarrow>
            (\<exists>st0 s1. initial_state nb_nodes graph = Inr st0
               \<and> level_body run parallelism st0 = Inr (False, s1)
               \<and> levels run parallelism st0 = Some (Inr s1)
               \<and> level s1 = 1
               \<and> evaluateGraph nb_nodes run parallelism graph = Some (build_result (comms s1))))"
proof (intro conjI impI iffI)
  assume "levels run parallelism st = Some (Inr s)"
  from levels_stops_backward[OF this]
  show "\<exists>k. nth_level run parallelism k st = Inr (False, s)
               \<and> (\<forall>j < k. \<exists>sj. nth_level run parallelism j st = Inr (True, sj))"
    by blast
next
  assume "\<exists>k. nth_level run parallelism k st = Inr (False, s)
               \<and> (\<forall>j < k. \<exists>sj. nth_level run parallelism j st = Inr (True, sj))"
  then show "levels run parallelism st = Some (Inr s)"
    using levels_stops_forward by blast
next
  assume "levels run parallelism st = Some (Inr s)"
  from levels_stops_backward[OF this]
  show "\<exists>k. nth_level run parallelism k st = Inr (False, s) \<and> level s = level st + int k + 1"
    by blast
next
  assume par: "1 \<le> parallelism"
  from level_body_winner[OF par, of run st]
  obtain b where sel: "select_best (map modularity (attempts run parallelism st)) parallelism = Inr b"
    and body: "level_body run parallelism st =
               (case renumber_communities (comms st) (n2c (run (level st) b (g st))) of
                  Inl e \<Rightarrow> Inl e
                | Inr comms' \<Rightarrow>
                    Inr (one_level (run (level st) b (g st)),
                         \<lparr>g = partition2graph (run (level st) b (g st)), comms = comms',
                          level = level st + 1\<rparr>))"
    by blast
  have "\<forall>improvement st'. level_body run parallelism st = Inr (improvement, st') \<longrightarrow>
                      improvement = one_level (run (level st) b (g st))"
    unfolding body by (auto split: sum.splits)
  with sel
  show "\<exists>b. select_best (map modularity (attempts run parallelism st)) parallelism = Inr b
               \<and> (\<forall>improvement st'. level_body run parallelism st = Inr (improvement, st') \<longrightarrow>
                      improvement = one_level (run (level st) b (g st)))"
    by blast
next
  assume h: "partition_contract nb_nodes run \<and> 1 \<le> parallelism
            \<and> (\<forall>i. 0 \<le> i \<and> i < parallelism \<longrightarrow> \<not> one_level (run 0 i graph))"
  then have contract: "partition_contract nb_nodes run" and par: "1 \<le> parallelism"
    and noimp: "\<forall>i. 0 \<le> i \<and> i < parallelism \<longrightarrow> \<not> one_level (run 0 i graph)" by blast+
  let ?st0 = "\<lparr>g = graph, comms = map int [0..<nat (nb_nodes graph)], level = 0\<rparr>"
  have nn: "0 \<le> nb_nodes graph" using contract by (rule contract_nb_nodes_nonneg)
  then have init: "initial_state nb_nodes graph = Inr ?st0" by (rule initial_state_identity)
  have "set (map int [0..<nat (nb_nodes graph)]) = {0..<nb_nodes graph}"
    using nn by (simp add: image_int_atLeastLessThan)
  then have inv0: "set (comms ?st0) = {0..<nb_nodes (g ?st0)}" by simp
  from level_body_dense[OF contract par inv0]
  obtain b s1 where b: "0 \<le> b" "b < parallelism"
    and body: "level_body run parallelism ?st0 = Inr (one_level (run (level ?st0) b (g ?st0)), s1)"
    and lvl: "level s1 = level ?st0 + 1"
    by blast
  have "\<not> one_level (run 0 b graph)" using noimp b by blast
  then have body': "level_body run parallelism ?st0 = Inr (False, s1)" using body by simp
  then have lv: "levels run parallelism ?st0 = Some (Inr s1)"
    by (subst levels.simps) simp
  have ev: "evaluateGraph nb_nodes run parallelism graph = Some (build_result (comms s1))"
    by (simp add: evaluateGraph_def init lv)
  have "level s1 = 1" using lvl by simp
  with init body' lv ev
  show "\<exists>st0 s1. initial_state nb_nodes graph = Inr st0
               \<and> level_body run parallelism st0 = Inr (False, s1)
               \<and> levels run parallelism st0 = Some (Inr s1)
               \<and> level s1 = 1
               \<and> evaluateGraph nb_nodes run parallelism graph = Some (build_result (comms s1))"
    by blast
qed

lemma example_initial_state_3:
  "initial_state int (3::nat) = Inr \<lparr>g = 3, comms = [0, 1, 2], level = 0\<rparr>"
  by code_simp

lemma example_level_3:
  "level_body example_run 4 \<lparr>g = 3, comms = [0, 1, 2], level = 0\<rparr>
     = Inr (False, \<lparr>g = 3, comms = [0, 1, 2], level = 1\<rparr>)"
  by code_simp

theorem loop_runs_while_winner_improves_witness:
  "nth_level example_run 4 0 \<lparr>g = 4, comms = [0, 1, 2, 3], level = 0\<rparr>
     = Inr (True, \<lparr>g = 2, comms = [0, 0, 1, 1], level = 1\<rparr>)
   \<and> nth_level example_run 4 1 \<lparr>g = 4, comms = [0, 1, 2, 3], level = 0\<rparr>
     = Inr (False, \<lparr>g = 2, comms = [0, 0, 1, 1], level = 2\<rparr>)
   \<and> levels example_run 4 \<lparr>g = 4, comms = [0, 1, 2, 3], level = 0\<rparr>
     = Some (Inr \<lparr>g = 2, comms = [0, 0, 1, 1], level = 2\<rparr>)
   \<and> partition_contract int example_run \<and> (1::int) \<le> 4
   \<and> \<not> one_level (example_run 0 0 3) \<and> \<not> one_level (example_run 0 1 3)
   \<and> \<not> one_level (example_run 0 2 3) \<and> \<not> one_level (example_run 0 3 3)
   \<and> levels example_run 4 \<lparr>g = 3, comms = [0, 1, 2], level = 0\<rparr>
     = Some (Inr \<lparr>g = 3, comms = [0, 1, 2], level = 1\<rparr>)
   \<and> evaluateGraph int example_run 4 (3::nat) = Some (build_result [0, 1, 2])"
proof -
  let ?st0 = "\<lparr>g = 4::nat, comms = [0, 1, 2, 3], level = 0\<rparr>"
  let ?s2 = "\<lparr>g = 2::nat, comms = [0, 0, 1, 1], level = 2\<rparr>"
  have n0: "nth_level example_run 4 0 ?st0 = Inr (True, \<lparr>g = 2, comms = [0, 0, 1, 1], level = 1\<rparr>)"
    by (simp add: example_level_0)
  have n1: "nth_level example_run 4 1 ?st0 = Inr (False, ?s2)"
    by (simp add: example_level_0 example_level_1)
  have "\<forall>j < (1::nat). \<exists>sj. nth_level example_run 4 j ?st0 = Inr (True, sj)"
    using n0 by simp
  with n1 have ex: "\<exists>k. nth_level example_run 4 k ?st0 = Inr (False, ?s2)
               \<and> (\<forall>j < k. \<exists>sj. nth_level example_run 4 j ?st0 = Inr (True, sj))" by blast
  have par: "(1::int) \<le> 4" by simp
  have noimp: "\<forall>i. 0 \<le> i \<and> i < 4 \<longrightarrow> \<not> one_level (example_run 0 i 3)"
    by (simp add: example_run_def)
  note inst = loop_runs_while_winner_improves[of example_run 4 ?st0 ?s2 int 3]
  from inst ex have l: "levels example_run 4 ?st0 = Some (Inr ?s2)" by blast
  from inst example_run_contract par noimp
  obtain st0 s1 where z: "initial_state int (3::nat) = Inr st0"
      "level_body example_run 4 st0 = Inr (False, s1)"
      "levels example_run 4 st0 = Some (Inr s1)"
      "evaluateGraph int example_run 4 (3::nat) = Some (build_result (comms s1))"
    by blast
  from z(1) have st0: "st0 = \<lparr>g = 3, comms = [0, 1, 2], level = 0\<rparr>"
    by (simp add: example_initial_state_3)
  with z(2) have s1: "s1 = \<lparr>g = 3, comms = [0, 1, 2], level = 1\<rparr>"
    by (simp add: example_level_3)
  from n0 n1 l example_run_contract par z(3,4) st0 s1 show ?thesis
    by (simp add: example_run_def)
qed

theorem winner_is_first_maximum_witness:
  "(1::int) \<le> 4
   \<and> map modularity (attempts example_run 4 \<lparr>g = 4, comms = [0, 1, 2, 3], level = 0\<rparr>) = [1, 3, 3, 1]
   \<and> select_best (map modularity (attempts example_run 4 \<lparr>g = 4, comms = [0, 1, 2, 3], level = 0\<rparr>)) 4
       = Inr 1"
proof -
  let ?st0 = "\<lparr>g = 4::nat, comms = [0, 1, 2, 3], level = 0\<rparr>"
  have par: "(1::int) \<le> 4" by simp
  have ms: "map modularity (attempts example_run 4 ?st0) = [1, 3, 3, 1]"
    by code_simp
  from winner_is_first_maximum[OF par, of example_run ?st0]
  obtain b where b: "select_best (map modularity (attempts example_run 4 ?st0)) 4 = Inr b"
    "0 \<le> b" "b < 4"
    "\<forall>i. 0 \<le> i \<and> i < 4 \<longrightarrow> modularity (example_run (level ?st0) i (g ?st0))
                \<le> modularity (example_run (level ?st0) b (g ?st0))"
    "\<forall>i. 0 \<le> i \<and> i < b \<longrightarrow> modularity (example_run (level ?st0) i (g ?st0))
                < modularity (example_run (level ?st0) b (g ?st0))"
    by blast
  from b(4) have "modularity (example_run 0 1 4) \<le> modularity (example_run 0 b 4)" by simp
  then have b12: "b = 1 \<or> b = 2" by (simp add: example_run_def split: if_splits)
  have "b \<noteq> 2"
  proof
    assume "b = 2"
    with b(5) have "modularity (example_run 0 1 4) < modularity (example_run 0 2 4)" by simp
    then show False by (simp add: example_run_def)
  qed
  with b12 have "b = 1" by simp
  with b(1) par ms show ?thesis by simp
qed

section \<open>The result\<close>

lemma build_result_max_loop:
  fixes ids :: "int list"
  shows "for_loop 0 (int (length ids))
             (\<lambda>i max_id. case vec_at ids i of Inl e \<Rightarrow> Inl e
                           | Inr c \<Rightarrow> Inr (if c > max_id then c else max_id))
             0 = Inr (Max (insert 0 (set ids)))"
proof -
  let ?body = "(\<lambda>i max_id. case vec_at ids i of Inl e \<Rightarrow> Inl e
                           | Inr c \<Rightarrow> Inr (if c > max_id then c else max_id))"
  let ?I = "\<lambda>i (m :: int). m = Max (insert 0 (set (take (nat i) ids)))"
  have "\<exists>t. for_loop 0 (int (length ids)) ?body 0 = Inr t \<and> ?I (int (length ids)) t"
  proof (rule for_loop_invariant[where I = ?I])
    show "?I 0 0" by simp
    show "0 \<le> int (length ids)" by simp
  next
    fix j t assume j: "0 \<le> j" "j < int (length ids)" and I: "?I j t"
    let ?k = "nat j"
    have kl: "?k < length ids" using j by linarith
    have va: "vec_at ids j = Inr (ids ! ?k)" using j(1) kl by (simp add: vec_at_in_range)
    have tk: "take (nat (j + 1)) ids = take ?k ids @ [ids ! ?k]"
      using kl j(1) by (simp add: nat_add_distrib take_Suc_conv_app_nth)
    have "insert 0 (set (take (nat (j + 1)) ids)) = insert (ids ! ?k) (insert 0 (set (take ?k ids)))"
      by (auto simp: tk)
    then have "Max (insert 0 (set (take (nat (j + 1)) ids))) = max (ids ! ?k) t"
      using I by simp
    moreover have "(if ids ! ?k > t then ids ! ?k else t) = max (ids ! ?k) t" by (simp add: max_def)
    ultimately show "\<exists>t'. ?body j t = Inr t' \<and> ?I (j + 1) t'" by (simp add: va)
  qed
  then show ?thesis by simp
qed

lemma build_result_add_loop:
  fixes ids :: "int list" and K :: nat
  assumes rng: "\<forall>c \<in> set ids. 0 \<le> c \<and> c < int K"
  shows "for_loop 0 (int (length ids))
            (\<lambda>i r. case vec_at ids i of Inl e \<Rightarrow> Inl e | Inr c \<Rightarrow>
                      vec_modify r c (\<lambda>community. Community_add community i))
            (replicate K [])
         = Inr (map (\<lambda>c. members ids (int c)) [0..<K])"
proof -
  let ?body = "(\<lambda>i r. case vec_at ids i of Inl e \<Rightarrow> Inl e | Inr c \<Rightarrow>
                      vec_modify r c (\<lambda>community. community @ [i]))"
  let ?M = "\<lambda>k c. filter (\<lambda>v. ids ! nat v = int c) (map int [0..<k])"
  let ?I = "\<lambda>i (r :: int list list). r = map (?M (nat i)) [0..<K]"
  have "\<exists>t. for_loop 0 (int (length ids)) ?body (replicate K []) = Inr t \<and> ?I (int (length ids)) t"
  proof (rule for_loop_invariant[where I = ?I])
    show "?I 0 (replicate K [])" by (simp add: map_replicate_const)
    show "0 \<le> int (length ids)" by simp
  next
    fix j t assume j: "0 \<le> j" "j < int (length ids)" and I: "?I j t"
    let ?k = "nat j"
    have kl: "?k < length ids" using j by linarith
    let ?c = "ids ! ?k"
    have "?c \<in> set ids" using kl by simp
    with rng have c: "0 \<le> ?c" "?c < int K" by auto
    then have cK: "nat ?c < K" by linarith
    have lt: "length t = K" using I by simp
    have va: "vec_at ids j = Inr ?c" using j(1) kl by (simp add: vec_at_in_range)
    have vm: "vec_modify t ?c (\<lambda>community. community @ [j]) = Inr (t[nat ?c := t ! nat ?c @ [j]])"
      using c lt by (simp add: vec_modify_def)
    have "t[nat ?c := t ! nat ?c @ [j]] = map (?M (Suc ?k)) [0..<K]"
    proof (rule nth_equalityI)
      show "length (t[nat ?c := t ! nat ?c @ [j]]) = length (map (?M (Suc ?k)) [0..<K])"
        using lt by simp
    next
      fix d assume "d < length (t[nat ?c := t ! nat ?c @ [j]])"
      then have d: "d < K" using lt by simp
      have td: "t ! d = ?M ?k d" using I d by simp
      show "t[nat ?c := t ! nat ?c @ [j]] ! d = map (?M (Suc ?k)) [0..<K] ! d"
      proof (cases "d = nat ?c")
        case True
        then have "int d = ?c" using c by simp
        then show ?thesis using True d lt td j(1) by simp
      next
        case False
        then have "int d \<noteq> ?c" using c by auto
        then show ?thesis using False d td j(1) by simp
      qed
    qed
    moreover have "nat (j + 1) = Suc ?k" using j(1) by simp
    ultimately show "\<exists>t'. ?body j t = Inr t' \<and> ?I (j + 1) t'" by (simp add: va vm)
  qed
  then show ?thesis unfolding Community_add_def by (simp add: members_def)
qed

lemma build_result_members:
  fixes ids :: "int list"
  assumes nn: "\<forall>c \<in> set ids. 0 \<le> c"
  shows "build_result ids =
           Inr (map (\<lambda>c. members ids (int c)) [0..<nat (Max (insert 0 (set ids)) + 1)])"
proof -
  let ?mx = "Max (insert 0 (set ids))"
  have "\<forall>c \<in> set ids. c \<le> ?mx" by simp
  moreover have "0 \<le> ?mx" by simp
  ultimately have rng: "\<forall>c \<in> set ids. 0 \<le> c \<and> c < int (nat (?mx + 1))"
    using nn by auto
  show ?thesis
    unfolding build_result_def
    by (simp add: build_result_max_loop build_result_add_loop[OF rng])
qed

lemma count_list_filter:
  "count_list (filter P xs) v = (if P v then count_list xs v else 0)"
  by (induction xs) auto

lemma count_list_distinct:
  "distinct xs \<Longrightarrow> v \<in> set xs \<Longrightarrow> count_list xs v = 1"
  by (induction xs) auto

lemma count_list_members:
  assumes "0 \<le> v" and "v < int (length ids)"
  shows "count_list (members ids c) v = (if ids ! nat v = c then 1 else 0)"
proof -
  have "distinct (map int [0..<length ids])" by (simp add: distinct_map)
  moreover have "v \<in> set (map int [0..<length ids])"
    using assms by (auto simp: image_iff intro: bexI[of _ "nat v"])
  ultimately have "count_list (map int [0..<length ids]) v = 1"
    by (rule count_list_distinct)
  then show ?thesis by (simp add: members_def count_list_filter)
qed

text \<open>
  Claim C10: on a graph with at least one node, when the loop ends in a state with the
  final mapping \<open>comms st\<close>, \<open>evaluateGraph\<close> returns \<open>1 + Max (set (comms st))\<close>
  communities; every vertex \<open>v\<close> occurs once in the community at index
  \<open>comms st ! v\<close> and in no other, and nothing else occurs in any community.
\<close>

theorem result_size_and_membership:
  fixes run :: "int \<Rightarrow> int \<Rightarrow> 'g \<Rightarrow> ('g, 'm::linorder) Partition"
  assumes "partition_contract nb_nodes run" and "1 \<le> parallelism" and "0 < nb_nodes graph"
    and "initial_state nb_nodes graph = Inr st0"
    and "levels run parallelism st0 = Some (Inr st)"
  shows "\<exists>r. evaluateGraph nb_nodes run parallelism graph = Some (Inr r)
           \<and> int (length r) = 1 + Max (set (comms st))
           \<and> int (length (comms st)) = nb_nodes graph
           \<and> (\<forall>v. 0 \<le> v \<and> v < nb_nodes graph \<longrightarrow>
                  0 \<le> comms st ! nat v \<and> nat (comms st ! nat v) < length r)
           \<and> (\<forall>v c. 0 \<le> v \<and> v < nb_nodes graph \<and> c < length r \<longrightarrow>
                  count_list (r ! c) v = (if comms st ! nat v = int c then 1 else 0))
           \<and> (\<forall>c < length r. set (r ! c) \<subseteq> {0..<nb_nodes graph})"
proof -
  let ?ids = "comms st"
  have nn: "0 \<le> nb_nodes graph" using assms(3) by simp
  have st0: "st0 = \<lparr>g = graph, comms = map int [0..<nat (nb_nodes graph)], level = 0\<rparr>"
    using initial_state_identity[of nb_nodes graph] nn assms(4) by simp
  have "set (map int [0..<nat (nb_nodes graph)]) = {0..<nb_nodes graph}"
    using nn by (simp add: image_int_atLeastLessThan)
  then have inv0: "set (comms st0) = {0..<nb_nodes (g st0)}" by (simp add: st0)
  from levels_dense[OF assms(5) assms(1,2) inv0]
  have dense: "set ?ids = {0..<nb_nodes (g st)}" and len: "length ?ids = length (comms st0)"
    by auto
  have len': "int (length ?ids) = nb_nodes graph" using len nn by (simp add: st0)
  have nonneg: "\<forall>c \<in> set ?ids. 0 \<le> c" using dense by simp
  have ne: "set ?ids \<noteq> {}" using len' assms(3) by auto
  let ?mx = "Max (insert 0 (set ?ids))"
  have mx: "?mx = Max (set ?ids)"
  proof -
    have "?mx = max 0 (Max (set ?ids))" using ne by simp
    moreover have "0 \<le> Max (set ?ids)"
    proof -
      from ne obtain x where x: "x \<in> set ?ids" by (cases ?ids) auto
      then have "x \<le> Max (set ?ids)" by simp
      moreover have "0 \<le> x" using x nonneg by blast
      ultimately show ?thesis by linarith
    qed
    ultimately show ?thesis by simp
  qed
  let ?r = "map (\<lambda>c. members ?ids (int c)) [0..<nat (?mx + 1)]"
  have br: "build_result ?ids = Inr ?r" using nonneg by (rule build_result_members)
  have ev: "evaluateGraph nb_nodes run parallelism graph = Some (Inr ?r)"
    by (simp add: evaluateGraph_def assms(4,5) br)
  have mx0: "0 \<le> ?mx" by simp
  have lr: "int (length ?r) = 1 + Max (set ?ids)" using mx mx0 by simp
  have idx: "\<forall>v. 0 \<le> v \<and> v < nb_nodes graph \<longrightarrow>
                  0 \<le> ?ids ! nat v \<and> nat (?ids ! nat v) < length ?r"
  proof (intro allI impI)
    fix v assume v: "0 \<le> v \<and> v < nb_nodes graph"
    then have "nat v < length ?ids" using len' by linarith
    then have in_set: "?ids ! nat v \<in> set ?ids" by simp
    then have "?ids ! nat v \<le> ?mx" by simp
    moreover have "0 \<le> ?ids ! nat v" using in_set nonneg by blast
    ultimately show "0 \<le> ?ids ! nat v \<and> nat (?ids ! nat v) < length ?r" by simp
  qed
  have cnt: "\<forall>v c. 0 \<le> v \<and> v < nb_nodes graph \<and> c < length ?r \<longrightarrow>
                  count_list (?r ! c) v = (if ?ids ! nat v = int c then 1 else 0)"
  proof (intro allI impI)
    fix v c assume h: "0 \<le> v \<and> v < nb_nodes graph \<and> c < length ?r"
    then have "?r ! c = members ?ids (int c)" by simp
    moreover have "count_list (members ?ids (int c)) v = (if ?ids ! nat v = int c then 1 else 0)"
      using h len' by (intro count_list_members) simp_all
    ultimately show "count_list (?r ! c) v = (if ?ids ! nat v = int c then 1 else 0)" by simp
  qed
  have sub: "\<forall>c < length ?r. set (?r ! c) \<subseteq> {0..<nb_nodes graph}"
  proof (intro allI impI)
    fix c assume "c < length ?r"
    then have "?r ! c = members ?ids (int c)" by simp
    moreover have "set (members ?ids (int c)) \<subseteq> {0..<int (length ?ids)}"
      by (auto simp: members_def)
    ultimately show "set (?r ! c) \<subseteq> {0..<nb_nodes graph}" using len' by simp
  qed
  from ev lr len' idx cnt sub show ?thesis by blast
qed

lemma example_build_result: "build_result [0, 0, 1, 1] = Inr [[0, 1], [2, 3]]"
  by code_simp

theorem result_size_and_membership_witness:
  "partition_contract int example_run \<and> (1::int) \<le> 4 \<and> 0 < int 4
   \<and> initial_state int (4::nat) = Inr \<lparr>g = 4, comms = [0, 1, 2, 3], level = 0\<rparr>
   \<and> levels example_run 4 \<lparr>g = 4, comms = [0, 1, 2, 3], level = 0\<rparr>
        = Some (Inr \<lparr>g = 2, comms = [0, 0, 1, 1], level = 2\<rparr>)
   \<and> evaluateGraph int example_run 4 (4::nat) = Some (Inr [[0, 1], [2, 3]])
   \<and> int (length [[0, 1], [2, 3 :: int]]) = 1 + Max (set [0, 0, 1, 1])"
proof -
  have par: "(1::int) \<le> 4" and pos: "0 < int 4" by simp_all
  have ev: "evaluateGraph int example_run 4 (4::nat) = Some (Inr [[0, 1], [2, 3]])"
    by (simp add: evaluateGraph_def example_initial_state example_levels example_build_result)
  from result_size_and_membership[OF example_run_contract par pos example_initial_state example_levels]
  obtain r where "evaluateGraph int example_run 4 (4::nat) = Some (Inr r)"
    "int (length r) = 1 + Max (set (comms \<lparr>g = 2::nat, comms = [0, 0, 1, 1], level = 2\<rparr>))"
    by blast
  with ev have "int (length [[0, 1], [2, 3 :: int]]) = 1 + Max (set [0, 0, 1, 1])" by simp
  with example_run_contract par pos example_initial_state example_levels ev
  show ?thesis by blast
qed

section \<open>The returned partition\<close>

lemma members_iff:
  "i \<in> set (members ids c) \<longleftrightarrow> 0 \<le> i \<and> nat i < length ids \<and> ids ! nat i = c"
proof -
  have "i \<in> int ` {0..<length ids} \<longleftrightarrow> 0 \<le> i \<and> nat i < length ids"
    by (auto simp: image_iff intro: bexI[of _ "nat i"])
  then show ?thesis by (auto simp: members_def)
qed

lemma build_result_empty: "build_result [] = Inr [[]]"
  using build_result_members[of "[]"] by (simp add: members_def)

lemma build_result_dense:
  fixes ids :: "int list"
  assumes S: "set ids = {0..<K}" and K: "0 < K"
  shows "build_result ids = Inr (map (\<lambda>c. members ids (int c)) [0..<nat K])"
proof -
  have nn: "\<forall>c \<in> set ids. 0 \<le> c" using S by simp
  have "insert 0 (set ids) = {0..<K}" using S K by auto
  moreover have "Max {0..<K} = K - 1"
    using K by (intro Max_eqI) auto
  ultimately have "Max (insert 0 (set ids)) + 1 = K" by simp
  with build_result_members[OF nn] show ?thesis by simp
qed

lemma evaluateGraph_final_state:
  fixes run :: "int \<Rightarrow> int \<Rightarrow> 'g \<Rightarrow> ('g, 'm::linorder) Partition"
  assumes c: "partition_contract nb_nodes run" and par: "1 \<le> parallelism"
    and ev: "evaluateGraph nb_nodes run parallelism graph = Some res"
  shows "\<exists>st0 st. initial_state nb_nodes graph = Inr st0
           \<and> levels run parallelism st0 = Some (Inr st)
           \<and> res = build_result (comms st)
           \<and> set (comms st) = {0..<nb_nodes (g st)}
           \<and> length (comms st) = nat (nb_nodes graph)"
proof -
  let ?st0 = "\<lparr>g = graph, comms = map int [0..<nat (nb_nodes graph)], level = 0\<rparr>"
  have nn: "0 \<le> nb_nodes graph" using c by (rule contract_nb_nodes_nonneg)
  then have init: "initial_state nb_nodes graph = Inr ?st0" by (rule initial_state_identity)
  have "set (map int [0..<nat (nb_nodes graph)]) = {0..<nb_nodes graph}"
    using nn by (simp add: image_int_atLeastLessThan)
  then have inv0: "set (comms ?st0) = {0..<nb_nodes (g ?st0)}" by simp
  from ev init obtain r where r: "levels run parallelism ?st0 = Some r"
    by (cases "levels run parallelism ?st0") (simp_all add: evaluateGraph_def)
  from levels_dense[OF r c par inv0]
  obtain st where st: "r = Inr st" "set (comms st) = {0..<nb_nodes (g st)}"
    "length (comms st) = length (comms ?st0)" by blast
  have "res = build_result (comms st)"
    using ev init r st(1) by (simp add: evaluateGraph_def)
  with init r st show ?thesis by simp
qed

text \<open>
  Claim C4: under the contract of \<open>Partition\<close>, the ids in use are exactly
  \<open>0, \<dots>, k - 1\<close> for the \<open>k\<close> nodes of the current graph before the first level,
  after every pass through the loop body, and in the state the loop ends with; each
  pass renumbers in the order of the winner's community ids. What \<open>evaluateGraph\<close>
  returns is built from that final state: with \<open>k\<close> the number of distinct final ids,
  the final ids are exactly \<open>0, \<dots>, k - 1\<close>, every vertex is in the community at the
  position of its final id, and on a graph with a node the result has exactly \<open>k\<close>
  communities, none of them empty. On the graph without nodes no id is in use and the
  result is one empty community.
\<close>

theorem community_ids_dense_zero_based:
  fixes run :: "int \<Rightarrow> int \<Rightarrow> 'g \<Rightarrow> ('g, 'm::linorder) Partition"
  assumes "partition_contract nb_nodes run" and "1 \<le> parallelism"
  shows "(\<exists>st0. initial_state nb_nodes graph = Inr st0
            \<and> set (comms st0) = {0..<nb_nodes (g st0)}
            \<and> (\<forall>r. levels run parallelism st0 = Some r \<longrightarrow>
                  (\<exists>st. r = Inr st \<and> set (comms st) = {0..<nb_nodes (g st)}
                        \<and> nb_nodes (g st) = int (card (set (comms st))))))
       \<and> (\<forall>st. set (comms st) = {0..<nb_nodes (g st)} \<longrightarrow>
            (\<exists>b improvement st'. 0 \<le> b \<and> b < parallelism
               \<and> select_best (map modularity (attempts run parallelism st)) parallelism = Inr b
               \<and> level_body run parallelism st = Inr (improvement, st')
               \<and> set (comms st') = {0..<nb_nodes (g st')}
               \<and> nb_nodes (g st') = int (card (set (n2c (run (level st) b (g st)))))
               \<and> (\<forall>i < length (comms st). \<forall>j < length (comms st).
                     (n2c (run (level st) b (g st)) ! nat (comms st ! i)
                        < n2c (run (level st) b (g st)) ! nat (comms st ! j))
                     = (comms st' ! i < comms st' ! j))))
       \<and> (\<forall>res. evaluateGraph nb_nodes run parallelism graph = Some res \<longrightarrow>
            (\<exists>st0 st communities.
               initial_state nb_nodes graph = Inr st0
               \<and> levels run parallelism st0 = Some (Inr st)
               \<and> res = Inr communities
               \<and> length (comms st) = nat (nb_nodes graph)
               \<and> set (comms st) = {0..<int (card (set (comms st)))}
               \<and> (\<forall>v < length (comms st).
                     0 \<le> comms st ! v \<and> nat (comms st ! v) < length communities
                     \<and> (\<forall>c < length communities.
                           (int v \<in> set (communities ! c)) = (comms st ! v = int c)))
               \<and> (0 < nb_nodes graph \<longrightarrow>
                     length communities = card (set (comms st))
                     \<and> (\<forall>c < length communities. communities ! c \<noteq> []))
               \<and> (nb_nodes graph = 0 \<longrightarrow> communities = [[]])))"
proof (intro conjI)
  let ?st0 = "\<lparr>g = graph, comms = map int [0..<nat (nb_nodes graph)], level = 0\<rparr>"
  have nn: "0 \<le> nb_nodes graph" using assms(1) by (rule contract_nb_nodes_nonneg)
  then have init: "initial_state nb_nodes graph = Inr ?st0" by (rule initial_state_identity)
  have "set (map int [0..<nat (nb_nodes graph)]) = {0..<nb_nodes graph}"
    using nn by (simp add: image_int_atLeastLessThan)
  then have inv0: "set (comms ?st0) = {0..<nb_nodes (g ?st0)}" by simp
  have fin: "\<forall>r. levels run parallelism ?st0 = Some r \<longrightarrow>
                  (\<exists>st. r = Inr st \<and> set (comms st) = {0..<nb_nodes (g st)}
                        \<and> nb_nodes (g st) = int (card (set (comms st))))"
  proof (intro allI impI)
    fix r assume "levels run parallelism ?st0 = Some r"
    from levels_dense[OF this assms inv0]
    obtain st where st: "r = Inr st" "set (comms st) = {0..<nb_nodes (g st)}" by blast
    have "0 \<le> nb_nodes (g st)" using assms(1) by (rule contract_nb_nodes_nonneg)
    then have "nb_nodes (g st) = int (card {0..<nb_nodes (g st)})" by simp
    with st show "\<exists>st. r = Inr st \<and> set (comms st) = {0..<nb_nodes (g st)}
                        \<and> nb_nodes (g st) = int (card (set (comms st)))" by simp
  qed
  from init inv0 fin
  show "\<exists>st0. initial_state nb_nodes graph = Inr st0
            \<and> set (comms st0) = {0..<nb_nodes (g st0)}
            \<and> (\<forall>r. levels run parallelism st0 = Some r \<longrightarrow>
                  (\<exists>st. r = Inr st \<and> set (comms st) = {0..<nb_nodes (g st)}
                        \<and> nb_nodes (g st) = int (card (set (comms st)))))"
    by blast
next
  show "\<forall>st. set (comms st) = {0..<nb_nodes (g st)} \<longrightarrow>
            (\<exists>b improvement st'. 0 \<le> b \<and> b < parallelism
               \<and> select_best (map modularity (attempts run parallelism st)) parallelism = Inr b
               \<and> level_body run parallelism st = Inr (improvement, st')
               \<and> set (comms st') = {0..<nb_nodes (g st')}
               \<and> nb_nodes (g st') = int (card (set (n2c (run (level st) b (g st)))))
               \<and> (\<forall>i < length (comms st). \<forall>j < length (comms st).
                     (n2c (run (level st) b (g st)) ! nat (comms st ! i)
                        < n2c (run (level st) b (g st)) ! nat (comms st ! j))
                     = (comms st' ! i < comms st' ! j)))"
  proof (intro allI impI)
    fix st :: "'g level_state"
    assume inv: "set (comms st) = {0..<nb_nodes (g st)}"
    from level_body_dense[OF assms inv]
    obtain b st' where b: "0 \<le> b" "b < parallelism"
      "select_best (map modularity (attempts run parallelism st)) parallelism = Inr b"
      "level_body run parallelism st = Inr (one_level (run (level st) b (g st)), st')"
      "set (comms st') = {0..<nb_nodes (g st')}"
      "\<forall>i < length (comms st). \<forall>j < length (comms st).
                 (n2c (run (level st) b (g st)) ! nat (comms st ! i)
                    < n2c (run (level st) b (g st)) ! nat (comms st ! j))
                 = (comms st' ! i < comms st' ! j)"
      by blast
    have "g st' = partition2graph (run (level st) b (g st))"
      using level_body_winner[OF assms(2), of run st] b(3,4)
      by (auto split: sum.splits)
    then have "nb_nodes (g st') = int (card (set (n2c (run (level st) b (g st)))))"
      using assms(1) unfolding partition_contract_def by simp
    with b show "\<exists>b improvement st'. 0 \<le> b \<and> b < parallelism
               \<and> select_best (map modularity (attempts run parallelism st)) parallelism = Inr b
               \<and> level_body run parallelism st = Inr (improvement, st')
               \<and> set (comms st') = {0..<nb_nodes (g st')}
               \<and> nb_nodes (g st') = int (card (set (n2c (run (level st) b (g st)))))
               \<and> (\<forall>i < length (comms st). \<forall>j < length (comms st).
                     (n2c (run (level st) b (g st)) ! nat (comms st ! i)
                        < n2c (run (level st) b (g st)) ! nat (comms st ! j))
                     = (comms st' ! i < comms st' ! j))"
      by blast
  qed
next
  show "\<forall>res. evaluateGraph nb_nodes run parallelism graph = Some res \<longrightarrow>
            (\<exists>st0 st communities.
               initial_state nb_nodes graph = Inr st0
               \<and> levels run parallelism st0 = Some (Inr st)
               \<and> res = Inr communities
               \<and> length (comms st) = nat (nb_nodes graph)
               \<and> set (comms st) = {0..<int (card (set (comms st)))}
               \<and> (\<forall>v < length (comms st).
                     0 \<le> comms st ! v \<and> nat (comms st ! v) < length communities
                     \<and> (\<forall>c < length communities.
                           (int v \<in> set (communities ! c)) = (comms st ! v = int c)))
               \<and> (0 < nb_nodes graph \<longrightarrow>
                     length communities = card (set (comms st))
                     \<and> (\<forall>c < length communities. communities ! c \<noteq> []))
               \<and> (nb_nodes graph = 0 \<longrightarrow> communities = [[]]))"
  proof (intro allI impI)
    fix res assume ev: "evaluateGraph nb_nodes run parallelism graph = Some res"
    from evaluateGraph_final_state[OF assms ev]
    obtain st0 st where init: "initial_state nb_nodes graph = Inr st0"
      and lv: "levels run parallelism st0 = Some (Inr st)"
      and res: "res = build_result (comms st)"
      and S: "set (comms st) = {0..<nb_nodes (g st)}"
      and len: "length (comms st) = nat (nb_nodes graph)"
      by blast
    let ?ids = "comms st" and ?K = "nb_nodes (g st)"
    have K0: "0 \<le> ?K" using assms(1) by (rule contract_nb_nodes_nonneg)
    then have card: "int (card (set ?ids)) = ?K" using S by simp
    have Sk: "set ?ids = {0..<int (card (set ?ids))}" using S card by simp
    have nn: "0 \<le> nb_nodes graph" using assms(1) by (rule contract_nb_nodes_nonneg)
    show "\<exists>st0 st communities.
               initial_state nb_nodes graph = Inr st0
               \<and> levels run parallelism st0 = Some (Inr st)
               \<and> res = Inr communities
               \<and> length (comms st) = nat (nb_nodes graph)
               \<and> set (comms st) = {0..<int (card (set (comms st)))}
               \<and> (\<forall>v < length (comms st).
                     0 \<le> comms st ! v \<and> nat (comms st ! v) < length communities
                     \<and> (\<forall>c < length communities.
                           (int v \<in> set (communities ! c)) = (comms st ! v = int c)))
               \<and> (0 < nb_nodes graph \<longrightarrow>
                     length communities = card (set (comms st))
                     \<and> (\<forall>c < length communities. communities ! c \<noteq> []))
               \<and> (nb_nodes graph = 0 \<longrightarrow> communities = [[]])"
    proof (cases "nb_nodes graph = 0")
      case True
      then have e: "?ids = []" using len by simp
      then have "res = Inr [[]]" using res by (simp add: build_result_empty)
      with init lv len Sk True e show ?thesis by auto
    next
      case False
      then have pos: "0 < nb_nodes graph" using nn by simp
      then have ne: "?ids \<noteq> []" using len by auto
      then have "set ?ids \<noteq> {}" by simp
      then have "{0..<?K} \<noteq> {}" using S by simp
      then have Kpos: "0 < ?K" by simp
      let ?cms = "map (\<lambda>c. members ?ids (int c)) [0..<nat ?K]"
      have r: "res = Inr ?cms" using res build_result_dense[OF S Kpos] by simp
      have lc: "length ?cms = card (set ?ids)" using card by simp
      have mem: "\<forall>v < length ?ids.
                     0 \<le> ?ids ! v \<and> nat (?ids ! v) < length ?cms
                     \<and> (\<forall>c < length ?cms. (int v \<in> set (?cms ! c)) = (?ids ! v = int c))"
      proof (intro allI impI)
        fix v assume v: "v < length ?ids"
        then have "?ids ! v \<in> set ?ids" by simp
        then have rng: "0 \<le> ?ids ! v" "?ids ! v < ?K" using S by auto
        have "\<forall>c < length ?cms. (int v \<in> set (?cms ! c)) = (?ids ! v = int c)"
          using v by (simp add: members_iff)
        with rng show "0 \<le> ?ids ! v \<and> nat (?ids ! v) < length ?cms
                     \<and> (\<forall>c < length ?cms. (int v \<in> set (?cms ! c)) = (?ids ! v = int c))"
          by simp
      qed
      have nonempty: "\<forall>c < length ?cms. ?cms ! c \<noteq> []"
      proof (intro allI impI)
        fix c assume c: "c < length ?cms"
        then have "int c \<in> set ?ids" using S by simp
        then obtain v where v: "v < length ?ids" "?ids ! v = int c"
          by (auto simp: in_set_conv_nth)
        then have "int v \<in> set (members ?ids (int c))" by (simp add: members_iff)
        then have "members ?ids (int c) \<noteq> []" by auto
        then show "?cms ! c \<noteq> []" using c by simp
      qed
      from init lv r len Sk mem lc nonempty False show ?thesis by blast
    qed
  qed
qed

lemma example_evaluateGraph:
  "evaluateGraph int example_run 4 (4::nat) = Some (Inr [[0, 1], [2, 3]])"
  by (simp add: evaluateGraph_def example_initial_state example_levels example_build_result)

lemma example_initial_state_0:
  "initial_state int (0::nat) = Inr \<lparr>g = 0, comms = [], level = 0\<rparr>"
  by code_simp

lemma example_level_empty:
  "level_body example_run 4 \<lparr>g = 0, comms = [], level = 0\<rparr>
     = Inr (False, \<lparr>g = 0, comms = [], level = 1\<rparr>)"
  by code_simp

lemma example_evaluateGraph_empty:
  "evaluateGraph int example_run 4 (0::nat) = Some (Inr [[]])"
proof -
  have "levels example_run 4 \<lparr>g = 0, comms = [], level = 0\<rparr>
          = Some (Inr \<lparr>g = 0, comms = [], level = 1\<rparr>)"
    by (subst levels.simps, simp add: example_level_empty)
  then show ?thesis
    by (simp add: evaluateGraph_def example_initial_state_0 build_result_empty)
qed

theorem community_ids_dense_zero_based_witness:
  "partition_contract int example_run \<and> (1::int) \<le> 4
   \<and> initial_state int (4::nat) = Inr \<lparr>g = 4, comms = [0, 1, 2, 3], level = 0\<rparr>
   \<and> levels example_run 4 \<lparr>g = 4, comms = [0, 1, 2, 3], level = 0\<rparr>
        = Some (Inr \<lparr>g = 2, comms = [0, 0, 1, 1], level = 2\<rparr>)
   \<and> set [0, 0, 1, 1] = {0..<int 2}
   \<and> level_body example_run 4 \<lparr>g = 4, comms = [0, 1, 2, 3], level = 0\<rparr>
        = Inr (True, \<lparr>g = 2, comms = [0, 0, 1, 1], level = 1\<rparr>)
   \<and> evaluateGraph int example_run 4 (4::nat) = Some (Inr [[0, 1], [2, 3]])
   \<and> length [[0, 1], [2, 3 :: int]] = card (set [0, 0, 1, 1 :: int])
   \<and> evaluateGraph int example_run 4 (0::nat) = Some (Inr [[]])"
proof -
  have par: "(1::int) \<le> 4" by simp
  note T = community_ids_dense_zero_based[OF example_run_contract par, of 4]
  from T[THEN conjunct1]
  have "\<forall>r. levels example_run 4 \<lparr>g = 4, comms = [0, 1, 2, 3], level = 0\<rparr> = Some r \<longrightarrow>
          (\<exists>st. r = Inr st \<and> set (comms st) = {0..<int (g st)})"
    by (auto simp: example_initial_state)
  then have d: "set [0, 0, 1, 1] = {0..<int 2}"
    using example_levels by fastforce
  from T[THEN conjunct2, THEN conjunct2, THEN spec, THEN mp, OF example_evaluateGraph]
  obtain st0 st communities where a: "initial_state int (4::nat) = Inr st0"
      "levels example_run 4 st0 = Some (Inr st)"
      "(Inr [[0, 1], [2, 3]] :: error + int list list) = Inr communities"
      "0 < int 4 \<longrightarrow> length communities = card (set (comms st))
                     \<and> (\<forall>c < length communities. communities ! c \<noteq> [])"
    apply (elim exE conjE)
    apply (rule that)
       apply assumption+
    done
  have "st0 = \<lparr>g = 4, comms = [0, 1, 2, 3], level = 0\<rparr>"
    using a(1) by (simp add: example_initial_state)
  then have "st = \<lparr>g = 2, comms = [0, 0, 1, 1], level = 2\<rparr>"
    using a(2) by (simp add: example_levels)
  moreover have "communities = [[0, 1], [2, 3]]" using a(3) by simp
  ultimately have l: "length [[0, 1], [2, 3 :: int]] = card (set [0, 0, 1, 1 :: int])"
    using a(4) by simp
  show ?thesis
    by (intro conjI example_run_contract par example_initial_state example_levels d
        example_level_0 example_evaluateGraph l example_evaluateGraph_empty)
qed

end
